theory Spec2Isabelle
  imports Main "HOL-Library.Multiset"
begin

section \<open>ThreadPool.h: the task queues\<close>

text \<open>
  \<^verbatim>\<open>std::vector<std::deque<task_type>> m_queues\<close> is a list of lists; the front of a
  deque is the head of its list. \<^verbatim>\<open>std::atomic<size_t> m_index\<close> is a natural number
  that wraps at \<open>2 ^ 64\<close> (\<^verbatim>\<open>size_t\<close> of the 64-bit Windows target of \<^verbatim>\<open>main.cpp\<close>).
  The type of tasks is a parameter: the pool never looks into a \<^verbatim>\<open>std::function<void()>\<close>.
  Each function below is one atomic action of the source: one operation on an atomic
  variable, or one critical section (the body guarded by a queue's \<^verbatim>\<open>std::lock_guard\<close>).
\<close>

record 't ThreadPool =
  m_queues :: "'t list list"
  m_index :: nat

text \<open>The constructor, lines 20-33: \<open>n = 0\<close> is replaced by 4, every queue starts empty.\<close>

definition ThreadPool_new :: "nat \<Rightarrow> 't ThreadPool" where
  "ThreadPool_new n =
     \<lparr>m_queues = replicate (if n = 0 then 4 else n) [], m_index = 0\<rparr>"

text \<open>
  \<^verbatim>\<open>push_task\<close>, lines 43-50, is two actions, and other threads can run between them.
  The first is line 44, \<^verbatim>\<open>m_index.fetch_add(1) % m_queues.size()\<close>, outside any lock: it
  returns the index of the queue that was chosen and advances the counter.
\<close>

definition fetch_add_index :: "'t ThreadPool \<Rightarrow> nat \<times> 't ThreadPool" where
  "fetch_add_index p =
     (m_index p mod length (m_queues p), p\<lparr>m_index := (m_index p + 1) mod 2 ^ 64\<rparr>)"

text \<open>
  The second is the critical section of lines 45-48, \<^verbatim>\<open>m_queues[idx].push_front\<close> with the
  index taken before. (\<^verbatim>\<open>notify_one\<close> of line 49 changes no state: a waiting worker wakes
  up after 50 ms at the latest.)
\<close>

definition push_front :: "nat \<Rightarrow> 't \<Rightarrow> 't ThreadPool \<Rightarrow> 't ThreadPool" where
  "push_front idx t p = p\<lparr>m_queues := (m_queues p)[idx := t # (m_queues p ! idx)]\<rparr>"

text \<open>A call of \<^verbatim>\<open>push_task\<close> that no other thread interleaves with: both actions in a row.\<close>

definition push_task :: "'t \<Rightarrow> 't ThreadPool \<Rightarrow> 't ThreadPool" where
  "push_task t p = (case fetch_add_index p of (idx, p') \<Rightarrow> push_front idx t p')"

text \<open>\<^verbatim>\<open>try_pop_from_queue\<close>, lines 83-89: \<open>None\<close> is the source's \<^verbatim>\<open>return false\<close>.\<close>

definition try_pop_from_queue :: "nat \<Rightarrow> 't ThreadPool \<Rightarrow> ('t \<times> 't ThreadPool) option" where
  "try_pop_from_queue idx p =
     (case m_queues p ! idx of
        [] \<Rightarrow> None
      | t # rest \<Rightarrow> Some (t, p\<lparr>m_queues := (m_queues p)[idx := rest]\<rparr>))"

text \<open>\<^verbatim>\<open>try_steal_from_queue\<close>, lines 92-98: takes \<^verbatim>\<open>back()\<close>, the oldest task.\<close>

definition try_steal_from_queue :: "nat \<Rightarrow> 't ThreadPool \<Rightarrow> ('t \<times> 't ThreadPool) option" where
  "try_steal_from_queue idx p =
     (if m_queues p ! idx = [] then None
      else Some (last (m_queues p ! idx),
                 p\<lparr>m_queues := (m_queues p)[idx := butlast (m_queues p ! idx)]\<rparr>))"

section \<open>ThreadPool.h: the worker loop as a step machine\<close>

text \<open>
  \<^verbatim>\<open>worker_loop\<close> (lines 54-80) runs on every worker thread. Its control points are
  \<^item> \<open>AtPop\<close>: the head of the \<^verbatim>\<open>while\<close> loop, about to call \<^verbatim>\<open>try_pop_from_queue(my_index)\<close>;
  \<^item> \<open>AtSteal i\<close>: in the \<^verbatim>\<open>for\<close> loop of lines 64-71 with loop variable \<open>i\<close>, about to test
    \<open>i < m_queues.size()\<close> and call \<^verbatim>\<open>try_steal_from_queue\<close>;
  \<^item> \<open>AtWait\<close>: in \<^verbatim>\<open>wait_for\<close> (lines 75-78), which returns on a notification or after 50 ms;
  \<^item> \<open>Running t\<close>: inside the call \<^verbatim>\<open>task()\<close> of line 59 or 67.
  One step of a worker is one of these actions, taken atomically; the threads
  interleave in any order. The destructor is not part of the runs (\<^verbatim>\<open>m_done\<close> stays
  false): the runs are those of a live pool. A task body is opaque here: its return is
  the step that leaves \<open>Running t\<close> and writes \<open>(worker, t)\<close> to the log \<open>executed\<close>.
  \<^verbatim>\<open>push_task\<close> may be called by any thread at any time, also by a running task, and
  any number of calls may be under way at once. \<open>Reserve t\<close> is the first action of a call
  for the task \<open>t\<close> (line 44); the call is then under way, with its index, in the list
  \<open>pushing\<close>. \<open>Push k\<close> is the second action (lines 45-48) of the call at position \<open>k\<close> of
  that list, so calls may overtake each other. \<open>Submit t\<close> is a whole call that nothing
  interleaves with: \<open>Reserve t\<close> and its \<open>Push\<close> in a row (lemma \<open>submit_in_two_steps\<close>).
\<close>

datatype 't wstate = AtPop | AtSteal nat | AtWait | Running 't

record 't pool_cfg =
  pool :: "'t ThreadPool"
  workers :: "'t wstate list"
  pushing :: "(nat \<times> 't) list"
  executed :: "(nat \<times> 't) list"

datatype 't event = Submit 't | Reserve 't | Push nat | Work nat

text \<open>The queue that iteration \<open>i\<close> of the steal loop looks at, line 65.\<close>

definition steal_idx :: "nat \<Rightarrow> nat \<Rightarrow> nat \<Rightarrow> nat" where
  "steal_idx my_index i n = (my_index + 1 + i) mod n"

definition worker_loop_step :: "nat \<Rightarrow> 't pool_cfg \<Rightarrow> 't pool_cfg" where
  "worker_loop_step my_index c =
     (case workers c ! my_index of
        AtPop \<Rightarrow>
          (case try_pop_from_queue my_index (pool c) of
             Some (t, p') \<Rightarrow> c\<lparr>pool := p', workers := (workers c)[my_index := Running t]\<rparr>
           | None \<Rightarrow> c\<lparr>workers := (workers c)[my_index := AtSteal 0]\<rparr>)
      | AtSteal i \<Rightarrow>
          (if i < length (m_queues (pool c)) then
             (case try_steal_from_queue
                     (steal_idx my_index i (length (m_queues (pool c)))) (pool c) of
                Some (t, p') \<Rightarrow> c\<lparr>pool := p', workers := (workers c)[my_index := Running t]\<rparr>
              | None \<Rightarrow> c\<lparr>workers := (workers c)[my_index := AtSteal (i + 1)]\<rparr>)
           else c\<lparr>workers := (workers c)[my_index := AtWait]\<rparr>)
      | AtWait \<Rightarrow> c\<lparr>workers := (workers c)[my_index := AtPop]\<rparr>
      | Running t \<Rightarrow>
          c\<lparr>workers := (workers c)[my_index := AtPop],
            executed := executed c @ [(my_index, t)]\<rparr>)"

definition pool_step :: "'t event \<Rightarrow> 't pool_cfg \<Rightarrow> 't pool_cfg" where
  "pool_step e c =
     (case e of
        Submit t \<Rightarrow> c\<lparr>pool := push_task t (pool c)\<rparr>
      | Reserve t \<Rightarrow>
          (case fetch_add_index (pool c) of
             (idx, p') \<Rightarrow> c\<lparr>pool := p', pushing := pushing c @ [(idx, t)]\<rparr>)
      | Push k \<Rightarrow>
          (if k < length (pushing c) then
             (case pushing c ! k of
                (idx, t) \<Rightarrow>
                  c\<lparr>pool := push_front idx t (pool c),
                    pushing := take k (pushing c) @ drop (Suc k) (pushing c)\<rparr>)
           else c)
      | Work i \<Rightarrow> (if i < length (workers c) then worker_loop_step i c else c))"

fun pool_run :: "'t event list \<Rightarrow> 't pool_cfg \<Rightarrow> 't pool_cfg" where
  "pool_run [] c = c"
| "pool_run (e # es) c = pool_run es (pool_step e c)"

text \<open>A pool as the constructor leaves it: one worker per queue, each at the loop head.\<close>

definition pool_init :: "nat \<Rightarrow> 't pool_cfg" where
  "pool_init n =
     \<lparr>pool = ThreadPool_new n,
      workers = replicate (if n = 0 then 4 else n) AtPop,
      pushing = [],
      executed = []\<rparr>"

text \<open>
  Observers of a pool configuration: the tasks handed to \<^verbatim>\<open>push_task\<close> by a sequence of
  events (a call counts from its first action), the tasks resident in the queues, and the
  tasks a worker has taken out of a queue and is running. In a well-formed configuration
  there is one worker per queue and every index taken by a call under way is the index of
  a queue.
\<close>

fun submitted :: "'t event list \<Rightarrow> 't list" where
  "submitted [] = []"
| "submitted (Submit t # es) = t # submitted es"
| "submitted (Reserve t # es) = t # submitted es"
| "submitted (Push k # es) = submitted es"
| "submitted (Work i # es) = submitted es"

fun running_of :: "'t wstate \<Rightarrow> 't list" where
  "running_of (Running t) = [t]"
| "running_of _ = []"

definition queued :: "'t pool_cfg \<Rightarrow> 't list" where
  "queued c = concat (m_queues (pool c))"

definition in_hand :: "'t pool_cfg \<Rightarrow> 't list" where
  "in_hand c = concat (map running_of (workers c))"

definition pool_wf :: "'t pool_cfg \<Rightarrow> bool" where
  "pool_wf c \<longleftrightarrow>
     length (workers c) = length (m_queues (pool c)) \<and> 0 < length (m_queues (pool c)) \<and>
     list_all (\<lambda>(idx, t). idx < length (m_queues (pool c))) (pushing c)"

lemma submit_in_two_steps:
  "pool_step (Submit t) c = pool_step (Push (length (pushing c))) (pool_step (Reserve t) c)"
  by (simp add: pool_step_def push_task_def split: prod.splits)

text \<open>
  Two calls of \<^verbatim>\<open>push_task\<close> on a fresh pool of three queues: the first takes index 0, the
  second takes index 1 and pushes before the first does.
\<close>

lemma pushes_can_overtake:
  "pool_run [Reserve A, Reserve B, Push 1] (pool_init 3)
     = \<lparr>pool = \<lparr>m_queues = [[], [B], []], m_index = 2\<rparr>, workers = [AtPop, AtPop, AtPop],
        pushing = [(0, A)], executed = []\<rparr> \<and>
   pool_run [Reserve A, Reserve B, Push 1, Push 0] (pool_init 3)
     = \<lparr>pool = \<lparr>m_queues = [[A], [B], []], m_index = 2\<rparr>, workers = [AtPop, AtPop, AtPop],
        pushing = [], executed = []\<rparr>"
proof -
  have r3: "replicate 3 x = [x, x, x]" for x :: 'b
    by (simp add: numeral_3_eq_3)
  show ?thesis
    by (simp add: pool_init_def ThreadPool_new_def pool_step_def r3 fetch_add_index_def
        push_front_def nth_Cons' list_update_code)
qed

subsection \<open>Owner and thief ends of one queue\<close>

lemma push_task_single:
  "m_queues p = [q] \<Longrightarrow>
   push_task t p = p\<lparr>m_index := (m_index p + 1) mod 2 ^ 64, m_queues := [t # q]\<rparr>"
  by (simp add: push_task_def fetch_add_index_def push_front_def)

text \<open>
  Claim C7 says that in a pool with a single queue, after A, B and C were submitted in this
  order and before any pop, the owner's pops return C, B, A and the single worker executes
  them in this order. The queue does hold C, B, A from the front. But what the worker does
  depends on where in its loop it is when the tasks arrive. At the head of its loop it pops
  and executes C, B, A. A worker that has found its queue empty (the worker of a fresh pool
  after its first step) is in the steal loop of lines 64-71, which visits the worker's own
  queue, here the only one: \<^verbatim>\<open>try_steal_from_queue\<close> takes A from the back, the worker
  executes A, then pops C and B, and its next pop finds the queue empty.
\<close>

theorem single_worker_runs_oldest_first:
  "m_queues (push_task C (push_task B (push_task A (ThreadPool_new 1)))) = [[C, B, A]] \<and>
   pool_run [Work 0, Submit A, Submit B, Submit C] (pool_init 1)
     = \<lparr>pool = \<lparr>m_queues = [[C, B, A]], m_index = 3\<rparr>, workers = [AtSteal 0],
        pushing = [], executed = []\<rparr> \<and>
   pool_run [Work 0, Submit A, Submit B, Submit C, Work 0] (pool_init 1)
     = \<lparr>pool = \<lparr>m_queues = [[C, B]], m_index = 3\<rparr>, workers = [Running A],
        pushing = [], executed = []\<rparr> \<and>
   pool_run [Work 0, Submit A, Submit B, Submit C, Work 0, Work 0, Work 0, Work 0, Work 0,
             Work 0, Work 0] (pool_init 1)
     = \<lparr>pool = \<lparr>m_queues = [[]], m_index = 3\<rparr>, workers = [AtSteal 0],
        pushing = [], executed = [(0, A), (0, C), (0, B)]\<rparr> \<and>
   pool_run [Submit A, Submit B, Submit C, Work 0, Work 0, Work 0, Work 0, Work 0, Work 0]
       (pool_init 1)
     = \<lparr>pool = \<lparr>m_queues = [[]], m_index = 3\<rparr>, workers = [AtPop],
        pushing = [], executed = [(0, C), (0, B), (0, A)]\<rparr>"
proof -
  note ev = steal_idx_def pool_init_def ThreadPool_new_def pool_step_def
    worker_loop_step_def push_task_def fetch_add_index_def push_front_def
    try_pop_from_queue_def try_steal_from_queue_def
  have "m_queues (push_task C (push_task B (push_task A (ThreadPool_new 1)))) = [[C, B, A]]"
    by (simp add: ev)
  moreover have "pool_run [Work 0, Submit A, Submit B, Submit C] (pool_init 1)
     = \<lparr>pool = \<lparr>m_queues = [[C, B, A]], m_index = 3\<rparr>, workers = [AtSteal 0],
        pushing = [], executed = []\<rparr>"
    by (simp add: ev)
  moreover have "pool_run [Work 0, Submit A, Submit B, Submit C, Work 0] (pool_init 1)
     = \<lparr>pool = \<lparr>m_queues = [[C, B]], m_index = 3\<rparr>, workers = [Running A],
        pushing = [], executed = []\<rparr>"
    by (simp add: ev)
  moreover have "pool_run [Work 0, Submit A, Submit B, Submit C, Work 0, Work 0, Work 0, Work 0,
             Work 0, Work 0, Work 0] (pool_init 1)
     = \<lparr>pool = \<lparr>m_queues = [[]], m_index = 3\<rparr>, workers = [AtSteal 0],
        pushing = [], executed = [(0, A), (0, C), (0, B)]\<rparr>"
    by (simp add: ev)
  moreover have "pool_run [Submit A, Submit B, Submit C, Work 0, Work 0, Work 0, Work 0, Work 0,
             Work 0] (pool_init 1)
     = \<lparr>pool = \<lparr>m_queues = [[]], m_index = 3\<rparr>, workers = [AtPop],
        pushing = [], executed = [(0, C), (0, B), (0, A)]\<rparr>"
    by (simp add: ev)
  ultimately show ?thesis by blast
qed

subsection \<open>The steal scan\<close>

text \<open>
  Claim C5 says that the steal scan of a worker visits the other \<open>N - 1\<close> queues and never
  its own. The loop of lines 64-71 runs \<open>i\<close> over \<open>0 ..< m_queues.size()\<close>, so it makes
  \<open>N\<close> visits and the last one, \<open>(my_index + 1 + (N - 1)) mod N\<close>, is the worker's own
  queue: of three queues, worker 1 visits 2, 0, 1. The visit is observable. With one
  queue, worker 0 fails to pop, then A and B are submitted, and the scan takes A from
  the back of the worker's own queue. With three queues, worker 1 has failed on its own
  queue and on queues 2 and 0 when X, Y, Z are submitted to queues 0, 1, 2; its third
  visit takes Y from its own queue.
\<close>

theorem steal_scan_visits_own_queue:
  "map (\<lambda>i. steal_idx 1 i 3) [0..<3] = [2, 0, 1] \<and>
   workers (pool_run [Work 0, Submit ''A'', Submit ''B'', Work 0] (pool_init 1))
     = [Running ''A''] \<and>
   workers (pool_run [Work 1, Work 1, Work 1, Submit ''X'', Submit ''Y'', Submit ''Z'', Work 1]
              (pool_init 3)) = [AtPop, Running ''Y'', AtPop]"
proof -
  have r3: "replicate 3 x = [x, x, x]" for x :: 'b
    by (simp add: numeral_3_eq_3)
  have "map (\<lambda>i. steal_idx 1 i 3) [0..<3] = [2, 0, 1]"
    by (simp add: steal_idx_def upt_rec)
  moreover have "workers (pool_run [Work 0, Submit ''A'', Submit ''B'', Work 0] (pool_init 1))
      = [Running ''A'']"
    by (simp add: steal_idx_def pool_init_def ThreadPool_new_def pool_step_def
        worker_loop_step_def push_task_def fetch_add_index_def push_front_def
        try_pop_from_queue_def try_steal_from_queue_def)
  moreover have "workers (pool_run [Work 1, Work 1, Work 1, Submit ''X'', Submit ''Y'',
      Submit ''Z'', Work 1] (pool_init 3)) = [AtPop, Running ''Y'', AtPop]"
    by (simp add: steal_idx_def pool_init_def ThreadPool_new_def pool_step_def r3
        worker_loop_step_def push_task_def fetch_add_index_def push_front_def
        try_pop_from_queue_def try_steal_from_queue_def nth_Cons' list_update_code)
  ultimately show ?thesis by blast
qed

subsection \<open>Every submitted task is in exactly one place\<close>

lemma mset_concat_update:
  "i < length qs \<Longrightarrow> mset (concat (qs[i := q])) + mset (qs ! i) = mset (concat qs) + mset q"
  by (induction qs arbitrary: i) (auto simp: nth_Cons' list_update_code split: nat.splits)

lemma queued_push_front:
  "idx < length (m_queues p) \<Longrightarrow>
   mset (concat (m_queues (push_front idx t p))) = add_mset t (mset (concat (m_queues p)))"
  using mset_concat_update [of idx "m_queues p" "t # (m_queues p ! idx)"]
  by (simp add: push_front_def)

lemma fetch_add_index_simps [simp]:
  "m_queues (snd (fetch_add_index p)) = m_queues p"
  "0 < length (m_queues p) \<Longrightarrow> fst (fetch_add_index p) < length (m_queues p)"
  by (simp_all add: fetch_add_index_def)

lemma push_front_length [simp]: "length (m_queues (push_front idx t p)) = length (m_queues p)"
  by (simp add: push_front_def)

lemma push_front_Nil_iff [simp]: "m_queues (push_front idx t p) = [] \<longleftrightarrow> m_queues p = []"
  by (simp add: push_front_def)

lemma push_task_length [simp]: "length (m_queues (push_task t p)) = length (m_queues p)"
  by (simp add: push_task_def case_prod_beta)

lemma queued_push:
  "0 < length (m_queues p) \<Longrightarrow>
   mset (concat (m_queues (push_task t p))) = add_mset t (mset (concat (m_queues p)))"
  using queued_push_front [of "fst (fetch_add_index p)" "snd (fetch_add_index p)" t]
  by (simp add: push_task_def case_prod_beta)

lemma queued_pop:
  "try_pop_from_queue i p = Some (t, p') \<Longrightarrow> i < length (m_queues p) \<Longrightarrow>
   mset (concat (m_queues p)) = add_mset t (mset (concat (m_queues p'))) \<and>
   length (m_queues p') = length (m_queues p)"
  using mset_concat_update [of i "m_queues p" "tl (m_queues p ! i)"]
  by (auto simp: try_pop_from_queue_def split: list.splits)

lemma mset_last_butlast: "xs \<noteq> [] \<Longrightarrow> mset xs = add_mset (last xs) (mset (butlast xs))"
  by (cases xs rule: rev_cases) auto

lemma queued_steal:
  assumes a: "try_steal_from_queue i p = Some (t, p')" and i: "i < length (m_queues p)"
  shows "mset (concat (m_queues p)) = add_mset t (mset (concat (m_queues p'))) \<and>
         length (m_queues p') = length (m_queues p)"
proof -
  from a have ne: "m_queues p ! i \<noteq> []" and t: "t = last (m_queues p ! i)"
    and p': "p' = p\<lparr>m_queues := (m_queues p)[i := butlast (m_queues p ! i)]\<rparr>"
    by (auto simp: try_steal_from_queue_def split: if_splits)
  from ne have "mset (m_queues p ! i) = add_mset t (mset (butlast (m_queues p ! i)))"
    unfolding t by (rule mset_last_butlast)
  with mset_concat_update [OF i, of "butlast (m_queues p ! i)"] p'
  show ?thesis by simp
qed

lemma in_hand_update:
  "i < length ws \<Longrightarrow>
   mset (concat (map running_of (ws[i := w]))) + mset (running_of (ws ! i))
     = mset (concat (map running_of ws)) + mset (running_of w)"
  using mset_concat_update [of i "map running_of ws" "running_of w"]
  by (simp add: map_update)

definition held :: "'t pool_cfg \<Rightarrow> 't multiset" where
  "held c =
     mset (map snd (executed c)) + mset (in_hand c) + mset (queued c)
     + mset (map snd (pushing c))"

lemma mset_take_drop:
  "k < length xs \<Longrightarrow> mset (take k xs @ drop (Suc k) xs) + {#xs ! k#} = mset xs"
  by (metis add_mset_add_single id_take_nth_drop mset.simps(2) mset_append union_mset_add_mset_right)

lemma held_step:
  assumes "pool_wf c"
  shows "held (pool_step e c) = held c + mset (submitted [e]) \<and> pool_wf (pool_step e c)"
proof (cases e)
  case (Submit t)
  with assms show ?thesis
    by (simp add: pool_step_def held_def queued_def in_hand_def pool_wf_def queued_push)
next
  case (Reserve t)
  obtain idx p' where f: "fetch_add_index (pool c) = (idx, p')"
    by (cases "fetch_add_index (pool c)")
  from assms fetch_add_index_simps [of "pool c"] f
  have "m_queues p' = m_queues (pool c)" "idx < length (m_queues (pool c))"
    by (simp_all add: pool_wf_def)
  with Reserve assms f show ?thesis
    by (simp add: pool_step_def held_def queued_def in_hand_def pool_wf_def)
next
  case (Push k)
  show ?thesis
  proof (cases "k < length (pushing c)")
    case False
    with Push assms show ?thesis by (simp add: pool_step_def)
  next
    case True
    obtain idx t where kt: "pushing c ! k = (idx, t)" by (cases "pushing c ! k")
    from assms True kt have idx: "idx < length (m_queues (pool c))"
      by (auto simp: pool_wf_def list_all_length)
    have rest: "list_all (\<lambda>(idx, t). idx < length (m_queues (pool c)))
        (take k (pushing c) @ drop (Suc k) (pushing c))"
      using assms by (auto simp: pool_wf_def list_all_iff dest: in_set_takeD in_set_dropD)
    from mset_take_drop [OF True] kt
    have "mset (map snd (take k (pushing c) @ drop (Suc k) (pushing c))) + {#t#}
        = mset (map snd (pushing c))"
      by (metis (no_types, lifting) image_mset_single image_mset_union mset_map snd_conv)
    with Push True kt assms rest queued_push_front [OF idx, of t] show ?thesis
      by (simp add: pool_step_def held_def queued_def in_hand_def pool_wf_def)
  qed
next
  case (Work i)
  show ?thesis
  proof (cases "i < length (workers c)")
    case False
    with Work assms show ?thesis by (simp add: pool_step_def)
  next
    case True
    then have iq: "i < length (m_queues (pool c))" using assms by (simp add: pool_wf_def)
    have sq: "steal_idx i k (length (m_queues (pool c))) < length (m_queues (pool c))" for k
      using assms by (simp add: pool_wf_def steal_idx_def)
    show ?thesis
      using Work True assms in_hand_update [OF True]
      by (auto simp: pool_step_def worker_loop_step_def held_def queued_def in_hand_def
          pool_wf_def dest!: queued_pop [OF _ iq] queued_steal [OF _ sq]
          split: wstate.splits option.splits)
  qed
qed

lemma submitted_Cons: "mset (submitted (e # es)) = mset (submitted [e]) + mset (submitted es)"
  by (cases e) simp_all

lemma held_run:
  "pool_wf c \<Longrightarrow>
   held (pool_run es c) = held c + mset (submitted es) \<and> pool_wf (pool_run es c)"
proof (induction es arbitrary: c)
  case Nil
  then show ?case by simp
next
  case (Cons e es)
  from held_step [OF Cons.prems, of e] Cons.IH [of "pool_step e c"]
  show ?case by (simp add: submitted_Cons [of e es])
qed

lemma pool_init_wf: "pool_wf (pool_init n) \<and> held (pool_init n) = {#}"
  by (simp add: pool_wf_def pool_init_def ThreadPool_new_def held_def queued_def in_hand_def)

lemma executed_by_worker_step:
  "fst ` set (executed c) \<subseteq> {..<length (workers c)} \<Longrightarrow>
   fst ` set (executed (pool_step e c)) \<subseteq> {..<length (workers (pool_step e c))} \<and>
   length (workers (pool_step e c)) = length (workers c)"
  by (cases e)
    (auto simp: pool_step_def worker_loop_step_def
      split: wstate.splits option.splits prod.splits)

lemma executed_by_worker_run:
  "fst ` set (executed c) \<subseteq> {..<length (workers c)} \<Longrightarrow>
   fst ` set (executed (pool_run es c)) \<subseteq> {..<length (workers (pool_run es c))} \<and>
   length (workers (pool_run es c)) = length (workers c)"
proof (induction es arbitrary: c)
  case Nil
  then show ?case by simp
next
  case (Cons e es)
  from executed_by_worker_step [OF Cons.prems, of e]
  have a: "fst ` set (executed (pool_step e c)) \<subseteq> {..<length (workers (pool_step e c))}"
    and b: "length (workers (pool_step e c)) = length (workers c)"
    by blast+
  from Cons.IH [OF a] b show ?case by auto
qed

subsection \<open>Every queued task can be taken\<close>

text \<open>
  \<open>backlog\<close> bounds the worker steps that remain until no task is queued or running. No
  worker step raises it; the return of a task lowers it, and so does every successful pop or
  steal. A worker between tasks finds a queued task within one pass of its loop, wherever
  in the loop it is, because the steal scan reaches every queue.
\<close>

definition backlog :: "'t pool_cfg \<Rightarrow> nat" where
  "backlog c = 2 * length (queued c) + length (in_hand c)"

lemma in_hand_length:
  "i < length ws \<Longrightarrow>
   length (concat (map running_of (ws[i := w]))) + length (running_of (ws ! i))
     = length (concat (map running_of ws)) + length (running_of w)"
  using arg_cong [OF in_hand_update [of i ws w], of size] by simp

lemma queued_pop_length:
  "try_pop_from_queue i p = Some (t, p') \<Longrightarrow> i < length (m_queues p) \<Longrightarrow>
   length (concat (m_queues p)) = Suc (length (concat (m_queues p')))"
proof -
  assume "try_pop_from_queue i p = Some (t, p')" "i < length (m_queues p)"
  then have "mset (concat (m_queues p)) = mset (t # concat (m_queues p'))"
    using queued_pop [of i p t p'] by simp
  from mset_eq_length [OF this] show ?thesis by simp
qed

lemma queued_steal_length:
  "try_steal_from_queue i p = Some (t, p') \<Longrightarrow> i < length (m_queues p) \<Longrightarrow>
   length (concat (m_queues p)) = Suc (length (concat (m_queues p')))"
proof -
  assume "try_steal_from_queue i p = Some (t, p')" "i < length (m_queues p)"
  then have "mset (concat (m_queues p)) = mset (t # concat (m_queues p'))"
    using queued_steal [of i p t p'] by simp
  from mset_eq_length [OF this] show ?thesis by simp
qed

fun between_tasks :: "'t wstate \<Rightarrow> bool" where
  "between_tasks (Running t) = False"
| "between_tasks _ = True"

lemma backlog_step:
  assumes wf: "pool_wf c" and i: "i < length (workers c)"
  shows "backlog (pool_step (Work i) c) \<le> backlog c \<and>
         (\<not> between_tasks (workers c ! i) \<longrightarrow> backlog (pool_step (Work i) c) < backlog c) \<and>
         (pool (pool_step (Work i) c) \<noteq> pool c \<longrightarrow> backlog (pool_step (Work i) c) < backlog c)"
proof -
  from wf i have iq: "i < length (m_queues (pool c))" and n: "0 < length (m_queues (pool c))"
    by (simp_all add: pool_wf_def)
  have sq: "steal_idx i k (length (m_queues (pool c))) < length (m_queues (pool c))" for k
    using n by (simp add: steal_idx_def)
  note upd = in_hand_length [OF i]
  have eq: "pool_step (Work i) c = worker_loop_step i c" using i by (simp add: pool_step_def)
  show ?thesis
    unfolding eq
  proof (cases "workers c ! i")
    case AtPop
    show "backlog (worker_loop_step i c) \<le> backlog c \<and>
         (\<not> between_tasks (workers c ! i) \<longrightarrow> backlog (worker_loop_step i c) < backlog c) \<and>
         (pool (worker_loop_step i c) \<noteq> pool c \<longrightarrow> backlog (worker_loop_step i c) < backlog c)"
    proof (cases "try_pop_from_queue i (pool c)")
      case None
      with AtPop upd [of "AtSteal 0"] show ?thesis
        by (simp add: worker_loop_step_def backlog_def queued_def in_hand_def)
    next
      case (Some a)
      obtain t p' where a: "a = (t, p')" by (cases a)
      from queued_pop_length [OF Some [unfolded a] iq] AtPop Some a upd [of "Running t"]
      show ?thesis
        by (simp add: worker_loop_step_def backlog_def queued_def in_hand_def)
    qed
  next
    case (AtSteal k)
    show "backlog (worker_loop_step i c) \<le> backlog c \<and>
         (\<not> between_tasks (workers c ! i) \<longrightarrow> backlog (worker_loop_step i c) < backlog c) \<and>
         (pool (worker_loop_step i c) \<noteq> pool c \<longrightarrow> backlog (worker_loop_step i c) < backlog c)"
    proof (cases "k < length (m_queues (pool c))")
      case False
      with AtSteal upd [of AtWait] show ?thesis
        by (simp add: worker_loop_step_def backlog_def queued_def in_hand_def)
    next
      case True
      show ?thesis
      proof (cases "try_steal_from_queue (steal_idx i k (length (m_queues (pool c)))) (pool c)")
        case None
        with True AtSteal upd [of "AtSteal (k + 1)"] show ?thesis
          by (simp add: worker_loop_step_def backlog_def queued_def in_hand_def)
      next
        case (Some a)
        obtain t p' where a: "a = (t, p')" by (cases a)
        from queued_steal_length [OF Some [unfolded a] sq] True AtSteal Some a upd [of "Running t"]
        show ?thesis
          by (simp add: worker_loop_step_def backlog_def queued_def in_hand_def)
      qed
    qed
  next
    case AtWait
    with upd [of AtPop] show "backlog (worker_loop_step i c) \<le> backlog c \<and>
         (\<not> between_tasks (workers c ! i) \<longrightarrow> backlog (worker_loop_step i c) < backlog c) \<and>
         (pool (worker_loop_step i c) \<noteq> pool c \<longrightarrow> backlog (worker_loop_step i c) < backlog c)"
      by (simp add: worker_loop_step_def backlog_def queued_def in_hand_def)
  next
    case (Running t)
    with upd [of AtPop] show "backlog (worker_loop_step i c) \<le> backlog c \<and>
         (\<not> between_tasks (workers c ! i) \<longrightarrow> backlog (worker_loop_step i c) < backlog c) \<and>
         (pool (worker_loop_step i c) \<noteq> pool c \<longrightarrow> backlog (worker_loop_step i c) < backlog c)"
      by (simp add: worker_loop_step_def backlog_def queued_def in_hand_def)
  qed
qed

lemma miss_steps:
  assumes i: "i < length (workers c)"
  shows "workers c ! i = AtPop \<Longrightarrow> m_queues (pool c) ! i = [] \<Longrightarrow>
           pool_step (Work i) c = c\<lparr>workers := (workers c)[i := AtSteal 0]\<rparr>"
    and "workers c ! i = AtSteal k \<Longrightarrow> k < length (m_queues (pool c)) \<Longrightarrow>
           m_queues (pool c) ! steal_idx i k (length (m_queues (pool c))) = [] \<Longrightarrow>
           pool_step (Work i) c = c\<lparr>workers := (workers c)[i := AtSteal (k + 1)]\<rparr>"
    and "workers c ! i = AtSteal k \<Longrightarrow> \<not> k < length (m_queues (pool c)) \<Longrightarrow>
           pool_step (Work i) c = c\<lparr>workers := (workers c)[i := AtWait]\<rparr>"
    and "workers c ! i = AtWait \<Longrightarrow> pool_step (Work i) c = c\<lparr>workers := (workers c)[i := AtPop]\<rparr>"
  using i
  by (simp_all add: pool_step_def worker_loop_step_def try_pop_from_queue_def
      try_steal_from_queue_def)

lemma take_steps:
  assumes wf: "pool_wf c" and i: "i < length (workers c)"
  shows "workers c ! i = AtPop \<Longrightarrow> m_queues (pool c) ! i \<noteq> [] \<Longrightarrow>
           backlog (pool_step (Work i) c) < backlog c"
    and "workers c ! i = AtSteal k \<Longrightarrow> k < length (m_queues (pool c)) \<Longrightarrow>
           m_queues (pool c) ! steal_idx i k (length (m_queues (pool c))) \<noteq> [] \<Longrightarrow>
           backlog (pool_step (Work i) c) < backlog c"
proof -
  from wf i have iq: "i < length (m_queues (pool c))" and n: "0 < length (m_queues (pool c))"
    by (simp_all add: pool_wf_def)
  have sq: "steal_idx i k (length (m_queues (pool c))) < length (m_queues (pool c))" for k
    using n by (simp add: steal_idx_def)
  note upd = in_hand_length [OF i]
  have eq: "pool_step (Work i) c = worker_loop_step i c" using i by (simp add: pool_step_def)
  show "backlog (pool_step (Work i) c) < backlog c"
    if h: "workers c ! i = AtPop" "m_queues (pool c) ! i \<noteq> []"
  proof -
    from h(2) obtain a where Some: "try_pop_from_queue i (pool c) = Some a"
      by (cases "m_queues (pool c) ! i") (simp_all add: try_pop_from_queue_def)
    obtain t p' where a: "a = (t, p')" by (cases a)
    from queued_pop_length [OF Some [unfolded a] iq] h(1) Some a upd [of "Running t"]
    show ?thesis unfolding eq
      by (simp add: worker_loop_step_def backlog_def queued_def in_hand_def)
  qed
  show "backlog (pool_step (Work i) c) < backlog c"
    if h: "workers c ! i = AtSteal k" "k < length (m_queues (pool c))"
      "m_queues (pool c) ! steal_idx i k (length (m_queues (pool c))) \<noteq> []"
  proof -
    from h(3) obtain a where Some:
      "try_steal_from_queue (steal_idx i k (length (m_queues (pool c)))) (pool c) = Some a"
      by (simp add: try_steal_from_queue_def)
    obtain t p' where a: "a = (t, p')" by (cases a)
    from queued_steal_length [OF Some [unfolded a] sq] h(1,2) Some a upd [of "Running t"]
    show ?thesis unfolding eq
      by (simp add: worker_loop_step_def backlog_def queued_def in_hand_def)
  qed
qed

lemma steal_idx_onto: "i < n \<Longrightarrow> q < n \<Longrightarrow> \<exists>k < n. steal_idx i k n = q"
proof (rule exI [of _ "(q + n - 1 - i) mod n"], intro conjI)
  assume a: "i < n" "q < n"
  then show "(q + n - 1 - i) mod n < n" by simp
  have "(i + 1 + (q + n - 1 - i) mod n) mod n = (i + 1 + (q + n - 1 - i)) mod n"
    by (rule mod_add_right_eq)
  also have "i + 1 + (q + n - 1 - i) = q + n" using a by simp
  finally show "steal_idx i ((q + n - 1 - i) mod n) n = q"
    using a by (simp add: steal_idx_def)
qed

definition can_take :: "nat \<Rightarrow> 't pool_cfg \<Rightarrow> bool" where
  "can_take i c \<longleftrightarrow> (\<exists>m. backlog (pool_run (replicate m (Work i)) c) < backlog c)"

lemma can_take_now:
  "backlog (pool_step (Work i) c) < backlog c \<Longrightarrow> can_take i c"
  unfolding can_take_def by (rule exI [of _ 1]) simp

lemma can_take_later:
  assumes "backlog (pool_step (Work i) c) \<le> backlog c" "can_take i (pool_step (Work i) c)"
  shows "can_take i c"
proof -
  from assms(2) obtain m where
    "backlog (pool_run (replicate m (Work i)) (pool_step (Work i) c))
       < backlog (pool_step (Work i) c)"
    unfolding can_take_def by blast
  with assms(1) have "backlog (pool_run (replicate (Suc m) (Work i)) c) < backlog c" by simp
  then show ?thesis unfolding can_take_def by blast
qed

lemma pool_wf_step: "pool_wf c \<Longrightarrow> pool_wf (pool_step e c)"
  using held_step [of c e] by blast

lemma pool_wf_run: "pool_wf c \<Longrightarrow> pool_wf (pool_run es c)"
  using held_run [of c es] by blast

lemma steal_loop_takes:
  assumes "pool_wf c" "i < length (workers c)" "workers c ! i = AtSteal k"
    "k \<le> k'" "k' < length (m_queues (pool c))"
    "m_queues (pool c) ! steal_idx i k' (length (m_queues (pool c))) \<noteq> []"
  shows "can_take i c"
  using assms
proof (induction "k' - k" arbitrary: k c)
  case 0
  then have kk: "k = k'" by simp
  from take_steps(2) [OF 0(2) 0(3) 0(4)] 0 kk show ?case
    by (intro can_take_now) simp
next
  case (Suc d)
  from Suc have k: "k < length (m_queues (pool c))" by simp
  show ?case
  proof (cases "m_queues (pool c) ! steal_idx i k (length (m_queues (pool c))) = []")
    case False
    from take_steps(2) [OF Suc(3) Suc(4) Suc(5) k False] show ?thesis
      by (rule can_take_now)
  next
    case True
    let ?c1 = "pool_step (Work i) c"
    have st: "?c1 = c\<lparr>workers := (workers c)[i := AtSteal (k + 1)]\<rparr>"
      by (rule miss_steps(2) [OF Suc(4) Suc(5) k True])
    have "can_take i ?c1"
    proof (rule Suc(1) [of "k + 1"])
      show "d = k' - (k + 1)" using Suc(2) by simp
      show "pool_wf ?c1" using Suc(3) by (rule pool_wf_step)
      show "i < length (workers ?c1)" using Suc(4) by (simp add: st)
      show "workers ?c1 ! i = AtSteal (k + 1)" using Suc(4) by (simp add: st)
      show "k + 1 \<le> k'" using Suc(2) by simp
      show "k' < length (m_queues (pool ?c1))" using Suc(7) by (simp add: st)
      show "m_queues (pool ?c1) ! steal_idx i k' (length (m_queues (pool ?c1))) \<noteq> []"
        using Suc(8) by (simp add: st)
    qed
    moreover have "backlog ?c1 \<le> backlog c" using backlog_step [OF Suc(3) Suc(4)] by simp
    ultimately show ?thesis by (rule can_take_later [rotated])
  qed
qed

lemma at_pop_takes:
  assumes wf: "pool_wf c" and i: "i < length (workers c)"
    and at: "workers c ! i = AtPop"
    and q: "q < length (m_queues (pool c))" "m_queues (pool c) ! q \<noteq> []"
  shows "can_take i c"
proof (cases "m_queues (pool c) ! i = []")
  case False
  from take_steps(1) [OF wf i at False] show ?thesis
    by (rule can_take_now)
next
  case True
  let ?c1 = "pool_step (Work i) c"
  let ?n = "length (m_queues (pool c))"
  have st: "?c1 = c\<lparr>workers := (workers c)[i := AtSteal 0]\<rparr>"
    by (rule miss_steps(1) [OF i at True])
  from wf have len: "length (workers c) = ?n" by (simp add: pool_wf_def)
  from steal_idx_onto [of i ?n q] i q(1) len obtain k' where
    k': "k' < ?n" "steal_idx i k' ?n = q" by auto
  have "can_take i ?c1"
  proof (rule steal_loop_takes [of _ _ 0 k'])
    show "pool_wf ?c1" using wf by (rule pool_wf_step)
    show "i < length (workers ?c1)" using i by (simp add: st)
    show "workers ?c1 ! i = AtSteal 0" using i by (simp add: st)
    show "0 \<le> k'" by simp
    show "k' < length (m_queues (pool ?c1))" using k'(1) by (simp add: st)
    show "m_queues (pool ?c1) ! steal_idx i k' (length (m_queues (pool ?c1))) \<noteq> []"
      using k'(2) q(2) by (simp add: st)
  qed
  moreover have "backlog ?c1 \<le> backlog c" using backlog_step [OF wf i] by simp
  ultimately show ?thesis by (rule can_take_later [rotated])
qed

lemma at_wait_takes:
  assumes wf: "pool_wf c" and i: "i < length (workers c)"
    and at: "workers c ! i = AtWait"
    and q: "q < length (m_queues (pool c))" "m_queues (pool c) ! q \<noteq> []"
  shows "can_take i c"
proof -
  let ?c1 = "pool_step (Work i) c"
  have st: "?c1 = c\<lparr>workers := (workers c)[i := AtPop]\<rparr>"
    by (rule miss_steps(4) [OF i at])
  have "can_take i ?c1"
  proof (rule at_pop_takes [of _ _ q])
    show "pool_wf ?c1" using wf by (rule pool_wf_step)
    show "i < length (workers ?c1)" using i by (simp add: st)
    show "workers ?c1 ! i = AtPop" using i by (simp add: st)
    show "q < length (m_queues (pool ?c1))" using q(1) by (simp add: st)
    show "m_queues (pool ?c1) ! q \<noteq> []" using q(2) by (simp add: st)
  qed
  moreover have "backlog ?c1 \<le> backlog c" using backlog_step [OF wf i] by simp
  ultimately show ?thesis by (rule can_take_later [rotated])
qed

lemma at_steal_takes:
  assumes "pool_wf c" "i < length (workers c)" "workers c ! i = AtSteal k"
    "q < length (m_queues (pool c))" "m_queues (pool c) ! q \<noteq> []"
  shows "can_take i c"
  using assms
proof (induction "length (m_queues (pool c)) - k" arbitrary: k c)
  case 0
  let ?c1 = "pool_step (Work i) c"
  from 0(1) have k: "\<not> k < length (m_queues (pool c))" by simp
  have st: "?c1 = c\<lparr>workers := (workers c)[i := AtWait]\<rparr>"
    by (rule miss_steps(3) [OF 0(3) 0(4) k])
  have "can_take i ?c1"
  proof (rule at_wait_takes [of _ _ q])
    show "pool_wf ?c1" using 0(2) by (rule pool_wf_step)
    show "i < length (workers ?c1)" using 0(3) by (simp add: st)
    show "workers ?c1 ! i = AtWait" using 0(3) by (simp add: st)
    show "q < length (m_queues (pool ?c1))" using 0(5) by (simp add: st)
    show "m_queues (pool ?c1) ! q \<noteq> []" using 0(6) by (simp add: st)
  qed
  moreover have "backlog ?c1 \<le> backlog c" using backlog_step [OF 0(2) 0(3)] by simp
  ultimately show ?case by (rule can_take_later [rotated])
next
  case (Suc d)
  let ?c1 = "pool_step (Work i) c"
  from Suc(2) have k: "k < length (m_queues (pool c))" by simp
  show ?case
  proof (cases "m_queues (pool c) ! steal_idx i k (length (m_queues (pool c))) = []")
    case False
    from take_steps(2) [OF Suc(3) Suc(4) Suc(5) k False] show ?thesis
      by (rule can_take_now)
  next
    case True
    have st: "?c1 = c\<lparr>workers := (workers c)[i := AtSteal (k + 1)]\<rparr>"
      by (rule miss_steps(2) [OF Suc(4) Suc(5) k True])
    have "can_take i ?c1"
    proof (rule Suc(1) [of _ "k + 1"])
      show "d = length (m_queues (pool ?c1)) - (k + 1)" using Suc(2) by (simp add: st)
      show "pool_wf ?c1" using Suc(3) by (rule pool_wf_step)
      show "i < length (workers ?c1)" using Suc(4) by (simp add: st)
      show "workers ?c1 ! i = AtSteal (k + 1)" using Suc(4) by (simp add: st)
      show "q < length (m_queues (pool ?c1))" using Suc(6) by (simp add: st)
      show "m_queues (pool ?c1) ! q \<noteq> []" using Suc(7) by (simp add: st)
    qed
    moreover have "backlog ?c1 \<le> backlog c" using backlog_step [OF Suc(3) Suc(4)] by simp
    ultimately show ?thesis by (rule can_take_later [rotated])
  qed
qed

lemma between_tasks_takes:
  assumes wf: "pool_wf c" and i: "i < length (workers c)"
    and at: "between_tasks (workers c ! i)"
    and q: "queued c \<noteq> []"
  shows "can_take i c"
proof -
  from q obtain q' where q': "q' < length (m_queues (pool c))" "m_queues (pool c) ! q' \<noteq> []"
    by (auto simp: queued_def in_set_conv_nth)
  show ?thesis
  proof (cases "workers c ! i")
    case AtPop
    then show ?thesis by (rule at_pop_takes [OF wf i _ q'])
  next
    case (AtSteal k)
    then show ?thesis by (rule at_steal_takes [OF wf i _ q'])
  next
    case AtWait
    then show ?thesis by (rule at_wait_takes [OF wf i _ q'])
  next
    case (Running t)
    with at show ?thesis by simp
  qed
qed

lemma pool_run_append: "pool_run (xs @ ys) c = pool_run ys (pool_run xs c)"
  by (induction xs arbitrary: c) simp_all

lemma pushing_work_step: "pushing (pool_step (Work i) c) = pushing c"
  by (simp add: pool_step_def worker_loop_step_def split: wstate.splits option.splits)

lemma pushing_work_run: "pushing (pool_run (map Work ks) c) = pushing c"
  by (induction ks arbitrary: c) (simp_all add: pushing_work_step)

lemma can_flush: "pushing (pool_run (replicate (length (pushing c)) (Push 0)) c) = []"
proof (induction "length (pushing c)" arbitrary: c)
  case 0
  then show ?case by simp
next
  case (Suc n)
  then obtain x xs where x: "pushing c = x # xs" by (cases "pushing c") auto
  then have "pushing (pool_step (Push 0) c) = xs"
    by (cases x) (simp add: pool_step_def)
  with Suc(1) [of "pool_step (Push 0) c"] Suc(2) x show ?case by simp
qed

lemma in_hand_Nil_iff: "in_hand c = [] \<longleftrightarrow> list_all between_tasks (workers c)"
proof -
  have "concat (map running_of ws) = [] \<longleftrightarrow> list_all between_tasks ws" for ws :: "'a wstate list"
  proof (induction ws)
    case Nil
    then show ?case by simp
  next
    case (Cons w ws)
    then show ?case by (cases w) simp_all
  qed
  then show ?thesis by (simp add: in_hand_def)
qed

lemma can_drain:
  "pool_wf c \<Longrightarrow> \<exists>ks. queued (pool_run (map Work ks) c) = [] \<and> in_hand (pool_run (map Work ks) c) = []"
proof (induction "backlog c" arbitrary: c rule: less_induct)
  case less
  from less(2) have w0: "0 < length (workers c)" by (simp add: pool_wf_def)
  have next_ok: "\<exists>ks. queued (pool_run (map Work ks) c) = [] \<and> in_hand (pool_run (map Work ks) c) = []"
    if "backlog (pool_run (map Work js) c) < backlog c" for js
  proof -
    have "pool_wf (pool_run (map Work js) c)" using less(2) by (rule pool_wf_run)
    from less(1) [OF that this] obtain ks where
      "queued (pool_run (map Work ks) (pool_run (map Work js) c)) = [] \<and>
       in_hand (pool_run (map Work ks) (pool_run (map Work js) c)) = []"
      by blast
    then have "queued (pool_run (map Work (js @ ks)) c) = [] \<and>
       in_hand (pool_run (map Work (js @ ks)) c) = []"
      by (simp add: pool_run_append)
    then show ?thesis by blast
  qed
  show ?case
  proof (cases "list_all between_tasks (workers c)")
    case False
    then obtain i where i: "i < length (workers c)" "\<not> between_tasks (workers c ! i)"
      by (auto simp: list_all_length)
    from backlog_step [OF less(2) i(1)] i(2) have "backlog (pool_run (map Work [i]) c) < backlog c"
      by simp
    then show ?thesis by (rule next_ok)
  next
    case idle: True
    show ?thesis
    proof (cases "queued c = []")
      case True
      with idle have "queued (pool_run (map Work []) c) = [] \<and> in_hand (pool_run (map Work []) c) = []"
        by (simp add: in_hand_Nil_iff)
      then show ?thesis by blast
    next
      case False
      from idle w0 have "between_tasks (workers c ! 0)" by (simp add: list_all_length)
      from between_tasks_takes [OF less(2) w0 this False] obtain m where
        "backlog (pool_run (replicate m (Work 0)) c) < backlog c"
        unfolding can_take_def by blast
      then have "backlog (pool_run (map Work (replicate m 0)) c) < backlog c" by simp
      then show ?thesis by (rule next_ok)
    qed
  qed
qed

lemma submitted_append_work:
  "submitted (es @ replicate m (Push 0) @ map Work ks) = submitted es"
proof (induction es rule: submitted.induct)
  case 1
  have "submitted (map Work ks) = ([] :: 'a list)" by (induction ks) simp_all
  then show ?case by (induction m) simp_all
qed simp_all

lemma can_drain_from:
  "\<exists>m ks. mset (map snd (executed
             (pool_run (es @ replicate m (Push 0) @ map Work ks) (pool_init n))))
           = mset (submitted es) \<and>
        pushing (pool_run (es @ replicate m (Push 0) @ map Work ks) (pool_init n)) = [] \<and>
        queued (pool_run (es @ replicate m (Push 0) @ map Work ks) (pool_init n)) = [] \<and>
        in_hand (pool_run (es @ replicate m (Push 0) @ map Work ks) (pool_init n)) = []"
proof -
  have wf0: "pool_wf (pool_init n :: 'a pool_cfg)" and h0: "held (pool_init n :: 'a pool_cfg) = {#}"
    using pool_init_wf [of n] by blast+
  define c1 where "c1 = pool_run es (pool_init n :: 'a pool_cfg)"
  define m where "m = length (pushing c1)"
  define c2 where "c2 = pool_run (replicate m (Push 0)) c1"
  have p2: "pushing c2 = []" unfolding c2_def m_def by (rule can_flush)
  have wf: "pool_wf c2" unfolding c2_def c1_def using wf0 by (intro pool_wf_run)
  from can_drain [OF wf] obtain ks where d:
    "queued (pool_run (map Work ks) c2) = []" "in_hand (pool_run (map Work ks) c2) = []"
    by blast
  have run: "pool_run (es @ replicate m (Push 0) @ map Work ks) (pool_init n)
      = pool_run (map Work ks) c2"
    by (simp add: pool_run_append c2_def c1_def)
  have p: "pushing (pool_run (map Work ks) c2) = []" using p2 by (simp add: pushing_work_run)
  from held_run [OF wf0, of "es @ replicate m (Push 0) @ map Work ks"] h0
  have "held (pool_run (map Work ks) c2) = mset (submitted es)"
    unfolding run by (simp add: submitted_append_work)
  with d p have "mset (map snd (executed (pool_run (map Work ks) c2))) = mset (submitted es)"
    by (simp add: held_def)
  with d p show ?thesis unfolding run [symmetric] by blast
qed


section \<open>main.cpp: partition and \<open>quicksort_job\<close>\<close>

text \<open>
  \<^verbatim>\<open>int* array\<close> is an \<open>int list\<close> indexed from 0. The elements are only compared and
  moved, so every C \<^verbatim>\<open>int\<close> is its own value. An index has the type \<^verbatim>\<open>long\<close>, which has
  32 bits on Windows, the target of \<^verbatim>\<open>main.cpp\<close> (\<^verbatim>\<open>windows.h\<close>, line 16): an index is an
  \<open>int\<close> between \<open>LONG_MIN\<close> and \<open>LONG_MAX\<close>. In a range \<open>0 \<le> left\<close>, \<open>right \<le> LONG_MAX\<close> the
  indices \<open>l\<close> and \<open>r\<close> stay between \<open>left - 1\<close> and \<open>right\<close> (\<open>l\<close> is incremented only
  when \<open>l \<le> r\<close>, and \<open>r\<close> is below \<open>right\<close> from the second iteration on, while in the
  first one \<open>l\<close> stops at the pivot's index or before), so the steps \<^verbatim>\<open>++l\<close>, \<^verbatim>\<open>--r\<close> and the
  differences of lines 69, 87 and 88 stay in the type. The sum \<open>l + r\<close> of line 76 need
  not: it is as large as twice the last index, and a signed overflow is undefined behaviour
  in C++. So is a read or write outside the array. The model makes the two the values
  \<open>Inl Overflow\<close> and \<open>Inl OutOfRange\<close>, so that a theorem \<open>... = Inr x\<close> also says that the
  sum was in the type and that no access left the array.
\<close>

datatype fault = OutOfRange | Overflow

definition LONG_MAX :: int where
  "LONG_MAX = 2147483647"

definition LONG_MIN :: int where
  "LONG_MIN = - 2147483648"

text \<open>The sum of two \<^verbatim>\<open>long\<close> values.\<close>

definition long_add :: "int \<Rightarrow> int \<Rightarrow> fault + int" where
  "long_add x y = (if LONG_MIN \<le> x + y \<and> x + y \<le> LONG_MAX then Inr (x + y) else Inl Overflow)"

text \<open>Line 78, \<^verbatim>\<open>while (array[l] < pivot) ++l;\<close>: the result is the final \<open>l\<close>.\<close>

function scan_up :: "int list \<Rightarrow> int \<Rightarrow> int \<Rightarrow> fault + int" where
  "scan_up a pivot l =
     (if 0 \<le> l \<and> l < int (length a) then
        (if a ! nat l < pivot then scan_up a pivot (l + 1) else Inr l)
      else Inl OutOfRange)"
  by pat_completeness auto
termination
  by (relation "measure (\<lambda>(a, pivot, l). nat (int (length a) - l))") auto

text \<open>Line 79, \<^verbatim>\<open>while (array[r] > pivot) --r;\<close>: the result is the final \<open>r\<close>.\<close>

function scan_down :: "int list \<Rightarrow> int \<Rightarrow> int \<Rightarrow> fault + int" where
  "scan_down a pivot r =
     (if 0 \<le> r \<and> r < int (length a) then
        (if a ! nat r > pivot then scan_down a pivot (r - 1) else Inr r)
      else Inl OutOfRange)"
  by pat_completeness auto
termination
  by (relation "measure (\<lambda>(a, pivot, r). nat (r + 1))") auto

declare scan_up.simps [simp del] scan_down.simps [simp del]

text \<open>Line 81, \<^verbatim>\<open>std::swap(array[l], array[r])\<close>, on two indices that were just read.\<close>

definition swap :: "int list \<Rightarrow> int \<Rightarrow> int \<Rightarrow> int list" where
  "swap a l r = a[nat l := a ! nat r, nat r := a ! nat l]"

subsection \<open>The scans move inwards\<close>

lemma scan_up_mono: "scan_up a pivot l = Inr l' \<Longrightarrow> l \<le> l'"
proof (induction a pivot l rule: scan_up.induct)
  case (1 a pivot l)
  then show ?case
    by (subst (asm) (2) scan_up.simps) (auto split: if_splits)
qed

lemma scan_down_mono: "scan_down a pivot r = Inr r' \<Longrightarrow> r' \<le> r"
proof (induction a pivot r rule: scan_down.induct)
  case (1 a pivot r)
  then show ?case
    by (subst (asm) (2) scan_down.simps) (auto split: if_splits)
qed

text \<open>
  Lines 77-84, the \<^verbatim>\<open>do ... while (l <= r)\<close> loop: one call is one iteration of the body,
  then the test of the loop condition on the updated \<open>l\<close> and \<open>r\<close>.
\<close>

function partition_loop :: "int list \<Rightarrow> int \<Rightarrow> int \<Rightarrow> int \<Rightarrow> fault + (int list \<times> int \<times> int)" where
  "partition_loop a pivot l r =
     (case scan_up a pivot l of
        Inl e \<Rightarrow> Inl e
      | Inr l1 \<Rightarrow>
          (case scan_down a pivot r of
             Inl e \<Rightarrow> Inl e
           | Inr r1 \<Rightarrow>
               if l1 \<le> r1 then
                 (if l1 + 1 \<le> r1 - 1 then partition_loop (swap a l1 r1) pivot (l1 + 1) (r1 - 1)
                  else Inr (swap a l1 r1, l1 + 1, r1 - 1))
               else Inr (a, l1, r1)))"
  by pat_completeness auto
termination
proof (relation "measure (\<lambda>(a, pivot, l, r). nat (r - l + 1))", goal_cases)
  case 1
  then show ?case by simp
next
  case (2 a pivot l r l1 r1)
  from scan_up_mono [OF 2(1)] scan_down_mono [OF 2(2)] 2(3,4)
  show ?case by simp
qed

declare partition_loop.simps [simp del]

subsection \<open>The partition loop\<close>

lemma scan_up_spec:
  "0 \<le> l \<Longrightarrow> l \<le> k \<Longrightarrow> k < int (length a) \<Longrightarrow> \<not> a ! nat k < pivot \<Longrightarrow>
   \<exists>l'. scan_up a pivot l = Inr l' \<and> l \<le> l' \<and> l' \<le> k \<and> \<not> a ! nat l' < pivot \<and>
        (\<forall>j. l \<le> j \<and> j < l' \<longrightarrow> a ! nat j < pivot)"
proof (induction a pivot l rule: scan_up.induct)
  case (1 a pivot l)
  show ?case
  proof (cases "a ! nat l < pivot")
    case False
    with 1 show ?thesis by (subst scan_up.simps) auto
  next
    case True
    with 1 have lk: "l + 1 \<le> k" by (cases "l = k") auto
    from 1 True lk obtain l' where
      l': "scan_up a pivot (l + 1) = Inr l'" "l + 1 \<le> l'" "l' \<le> k" "\<not> a ! nat l' < pivot"
      "\<forall>j. l + 1 \<le> j \<and> j < l' \<longrightarrow> a ! nat j < pivot"
      by fastforce
    have "\<forall>j. l \<le> j \<and> j < l' \<longrightarrow> a ! nat j < pivot"
    proof (intro allI impI)
      fix j assume "l \<le> j \<and> j < l'"
      then show "a ! nat j < pivot" using True l'(5) by (cases "j = l") auto
    qed
    with 1 True l' show ?thesis by (subst scan_up.simps) auto
  qed
qed

lemma scan_down_spec:
  "k \<le> r \<Longrightarrow> 0 \<le> k \<Longrightarrow> r < int (length a) \<Longrightarrow> \<not> a ! nat k > pivot \<Longrightarrow>
   \<exists>r'. scan_down a pivot r = Inr r' \<and> r' \<le> r \<and> k \<le> r' \<and> \<not> a ! nat r' > pivot \<and>
        (\<forall>j. r' < j \<and> j \<le> r \<longrightarrow> a ! nat j > pivot)"
proof (induction a pivot r rule: scan_down.induct)
  case (1 a pivot r)
  show ?case
  proof (cases "a ! nat r > pivot")
    case False
    with 1 show ?thesis by (subst scan_down.simps) auto
  next
    case True
    with 1 have lk: "k \<le> r - 1" by (cases "r = k") auto
    from 1 True lk obtain r' where
      r': "scan_down a pivot (r - 1) = Inr r'" "r' \<le> r - 1" "k \<le> r'" "\<not> a ! nat r' > pivot"
      "\<forall>j. r' < j \<and> j \<le> r - 1 \<longrightarrow> a ! nat j > pivot"
      by fastforce
    have "\<forall>j. r' < j \<and> j \<le> r \<longrightarrow> a ! nat j > pivot"
    proof (intro allI impI)
      fix j assume "r' < j \<and> j \<le> r"
      then show "a ! nat j > pivot" using True r'(5) by (cases "j = r") auto
    qed
    with 1 True r' show ?thesis by (subst scan_down.simps) auto
  qed
qed

lemma swap_length [simp]: "length (swap a l r) = length a"
  by (simp add: swap_def)

lemma swap_mset:
  "0 \<le> l \<Longrightarrow> 0 \<le> r \<Longrightarrow> l < int (length a) \<Longrightarrow> r < int (length a) \<Longrightarrow>
   mset (swap a l r) = mset a"
  by (simp add: swap_def mset_swap)

lemma swap_nth:
  "0 \<le> l \<Longrightarrow> 0 \<le> r \<Longrightarrow> l < int (length a) \<Longrightarrow> r < int (length a) \<Longrightarrow> 0 \<le> k \<Longrightarrow>
   swap a l r ! nat k =
     (if k = r then a ! nat l else if k = l then a ! nat r else a ! nat k)"
  by (auto simp: swap_def nth_list_update)

lemma partition_loop_spec:
  "0 \<le> left \<Longrightarrow> left \<le> l \<Longrightarrow> r \<le> right \<Longrightarrow> right < int (length a) \<Longrightarrow>
   (\<forall>k. left \<le> k \<and> k < l \<longrightarrow> a ! nat k \<le> p) \<Longrightarrow>
   (\<forall>k. r < k \<and> k \<le> right \<longrightarrow> p \<le> a ! nat k) \<Longrightarrow>
   (\<exists>k. l \<le> k \<and> k \<le> right \<and> p \<le> a ! nat k) \<Longrightarrow>
   (\<exists>k. left \<le> k \<and> k \<le> r \<and> a ! nat k \<le> p) \<Longrightarrow>
   \<exists>a' l' r'. partition_loop a p l r = Inr (a', l', r') \<and>
     l \<le> l' \<and> r' \<le> r \<and> r' < l' \<and> l' \<le> right + 1 \<and> left - 1 \<le> r' \<and>
     length a' = length a \<and> mset a' = mset a \<and>
     (\<forall>k. 0 \<le> k \<and> k < int (length a) \<and> (k < l \<or> r < k) \<longrightarrow> a' ! nat k = a ! nat k) \<and>
     (\<forall>k. left \<le> k \<and> k \<le> r' \<longrightarrow> a' ! nat k \<le> p) \<and>
     (\<forall>k. l' \<le> k \<and> k \<le> right \<longrightarrow> p \<le> a' ! nat k) \<and>
     (\<forall>k. r' < k \<and> k < l' \<longrightarrow> a' ! nat k = p) \<and>
     ((\<exists>k. l \<le> k \<and> k \<le> r \<and> a ! nat k = p) \<longrightarrow> l < l' \<and> r' < r)"
proof (induction a p l r rule: partition_loop.induct)
  case (1 a p l r)
  from "1.prems"(7) obtain ku where ku: "l \<le> ku" "ku \<le> right" "p \<le> a ! nat ku" by blast
  from "1.prems"(8) obtain kd where kd: "left \<le> kd" "kd \<le> r" "a ! nat kd \<le> p" by blast
  from scan_up_spec [of l ku a p] ku "1.prems"(1,2,4)
  obtain l1 where l1: "scan_up a p l = Inr l1" "l \<le> l1" "l1 \<le> ku" "p \<le> a ! nat l1"
    "\<forall>j. l \<le> j \<and> j < l1 \<longrightarrow> a ! nat j < p"
    by fastforce
  from scan_down_spec [of kd r a p] kd "1.prems"(1,3,4)
  obtain r1 where r1: "scan_down a p r = Inr r1" "r1 \<le> r" "kd \<le> r1" "a ! nat r1 \<le> p"
    "\<forall>j. r1 < j \<and> j \<le> r \<longrightarrow> a ! nat j > p"
    by fastforce
  have lo: "\<forall>k. left \<le> k \<and> k < l1 \<longrightarrow> a ! nat k \<le> p"
  proof (intro allI impI)
    fix k assume k: "left \<le> k \<and> k < l1"
    show "a ! nat k \<le> p"
    proof (cases "k < l")
      case True with k "1.prems"(5) show ?thesis by blast
    next
      case False with k l1(5) have "a ! nat k < p" by auto
      then show ?thesis by simp
    qed
  qed
  have hi: "\<forall>k. r1 < k \<and> k \<le> right \<longrightarrow> p \<le> a ! nat k"
  proof (intro allI impI)
    fix k assume k: "r1 < k \<and> k \<le> right"
    show "p \<le> a ! nat k"
    proof (cases "r < k")
      case True with k "1.prems"(6) show ?thesis by blast
    next
      case False with k r1(5) have "a ! nat k > p" by auto
      then show ?thesis by simp
    qed
  qed
  have bnd: "0 \<le> l1" "l1 < int (length a)" "0 \<le> r1" "r1 < int (length a)"
    using l1 r1 ku kd "1.prems"(1,2,3,4) by auto
  show ?case
  proof (cases "l1 \<le> r1")
    case False
    have "partition_loop a p l r = Inr (a, l1, r1)"
      using False l1(1) r1(1) by (subst partition_loop.simps) simp
    moreover have "\<forall>k. r1 < k \<and> k < l1 \<longrightarrow> a ! nat k = p"
    proof (intro allI impI)
      fix k assume k: "r1 < k \<and> k < l1"
      with lo hi kd r1 l1 ku have "a ! nat k \<le> p" "p \<le> a ! nat k" by auto
      then show "a ! nat k = p" by simp
    qed
    moreover have "\<forall>k. left \<le> k \<and> k \<le> r1 \<longrightarrow> a ! nat k \<le> p"
      using lo False by auto
    moreover have "\<forall>k. l1 \<le> k \<and> k \<le> right \<longrightarrow> p \<le> a ! nat k"
      using hi False by auto
    moreover have "\<not> (\<exists>k. l \<le> k \<and> k \<le> r \<and> a ! nat k = p)"
    proof
      assume "\<exists>k. l \<le> k \<and> k \<le> r \<and> a ! nat k = p"
      then obtain k where k: "l \<le> k" "k \<le> r" "a ! nat k = p" by blast
      from k l1(5) have "l1 \<le> k" by (cases "k < l1") auto
      moreover from k r1(5) have "k \<le> r1" by (cases "r1 < k") auto
      ultimately show False using False by simp
    qed
    ultimately show ?thesis
      using False l1 r1 ku kd by auto
  next
    case True
    let ?a = "swap a l1 r1"
    have nth: "?a ! nat k = (if k = r1 then a ! nat l1 else if k = l1 then a ! nat r1 else a ! nat k)"
      if "0 \<le> k" for k
      using swap_nth [OF bnd(1) bnd(3) bnd(2) bnd(4) that] .
    have lo': "\<forall>k. left \<le> k \<and> k < l1 + 1 \<longrightarrow> ?a ! nat k \<le> p"
    proof (intro allI impI)
      fix k assume k: "left \<le> k \<and> k < l1 + 1"
      with "1.prems"(1) have k0: "0 \<le> k" by simp
      show "?a ! nat k \<le> p"
      proof (cases "k = l1")
        case True
        then show ?thesis using nth [OF k0] r1(4) l1(4) by auto
      next
        case False
        with k True have "k \<noteq> r1" "k < l1" by auto
        then show ?thesis using nth [OF k0] lo k by auto
      qed
    qed
    have hi': "\<forall>k. r1 - 1 < k \<and> k \<le> right \<longrightarrow> p \<le> ?a ! nat k"
    proof (intro allI impI)
      fix k assume k: "r1 - 1 < k \<and> k \<le> right"
      with bnd have k0: "0 \<le> k" by simp
      show "p \<le> ?a ! nat k"
      proof (cases "k = r1")
        case True
        then show ?thesis using nth [OF k0] l1(4) by auto
      next
        case False
        with k True have "k \<noteq> l1" "r1 < k" by auto
        then show ?thesis using nth [OF k0] hi k False by auto
      qed
    qed
    have frame: "\<forall>k. 0 \<le> k \<and> k < int (length a) \<and> (k < l \<or> r < k) \<longrightarrow> ?a ! nat k = a ! nat k"
      using nth l1(2) r1(2) True by auto
    show ?thesis
    proof (cases "l1 + 1 \<le> r1 - 1")
      case False
      have eq: "partition_loop a p l r = Inr (?a, l1 + 1, r1 - 1)"
        using False True l1(1) r1(1) by (subst partition_loop.simps) simp
      have mid: "\<forall>k. r1 - 1 < k \<and> k < l1 + 1 \<longrightarrow> ?a ! nat k = p"
      proof (intro allI impI)
        fix k assume k: "r1 - 1 < k \<and> k < l1 + 1"
        with lo' hi' "1.prems"(1,2,3) l1 r1 ku kd True have "?a ! nat k \<le> p" "p \<le> ?a ! nat k"
          by auto
        then show "?a ! nat k = p" by simp
      qed
      have "\<forall>k. left \<le> k \<and> k \<le> r1 - 1 \<longrightarrow> ?a ! nat k \<le> p"
        using lo' False by auto
      moreover have "\<forall>k. l1 + 1 \<le> k \<and> k \<le> right \<longrightarrow> p \<le> ?a ! nat k"
        using hi' False by auto
      ultimately show ?thesis
        using eq mid frame True False l1 r1 ku kd "1.prems"(1,2,3)
          swap_mset [OF bnd(1) bnd(3) bnd(2) bnd(4)]
        by auto
    next
      case more: True
      have eq: "partition_loop a p l r = partition_loop ?a p (l1 + 1) (r1 - 1)"
        using more True l1(1) r1(1) by (subst partition_loop.simps) simp
      have s1: "\<exists>k. l1 + 1 \<le> k \<and> k \<le> right \<and> p \<le> ?a ! nat k"
        using nth [of r1] bnd l1(4) more r1(2) "1.prems"(3) by (intro exI [of _ r1]) auto
      have s2: "\<exists>k. left \<le> k \<and> k \<le> r1 - 1 \<and> ?a ! nat k \<le> p"
        using nth [of l1] bnd r1(4) more l1(2) "1.prems"(2) by (intro exI [of _ l1]) auto
      have pre: "left \<le> l1 + 1" "r1 - 1 \<le> right" "right < int (length ?a)"
        using l1(2) r1(2) "1.prems"(2,3,4) by simp_all
      from "1.IH" [OF l1(1) r1(1) True more "1.prems"(1) pre lo' hi' s1 s2]
      obtain a' l' r' where res: "partition_loop ?a p (l1 + 1) (r1 - 1) = Inr (a', l', r')"
        "l1 + 1 \<le> l'" "r' \<le> r1 - 1" "r' < l'" "l' \<le> right + 1" "left - 1 \<le> r'"
        "length a' = length ?a" "mset a' = mset ?a"
        "\<forall>k. 0 \<le> k \<and> k < int (length ?a) \<and> (k < l1 + 1 \<or> r1 - 1 < k) \<longrightarrow> a' ! nat k = ?a ! nat k"
        "\<forall>k. left \<le> k \<and> k \<le> r' \<longrightarrow> a' ! nat k \<le> p"
        "\<forall>k. l' \<le> k \<and> k \<le> right \<longrightarrow> p \<le> a' ! nat k"
        "\<forall>k. r' < k \<and> k < l' \<longrightarrow> a' ! nat k = p"
        by blast
      have "\<forall>k. 0 \<le> k \<and> k < int (length a) \<and> (k < l \<or> r < k) \<longrightarrow> a' ! nat k = a ! nat k"
      proof (intro allI impI)
        fix k assume k: "0 \<le> k \<and> k < int (length a) \<and> (k < l \<or> r < k)"
        with res(9) l1(2) r1(2) have "a' ! nat k = ?a ! nat k" by auto
        with frame k show "a' ! nat k = a ! nat k" by simp
      qed
      with res eq l1(2) r1(2) swap_mset [OF bnd(1) bnd(3) bnd(2) bnd(4)]
      show ?thesis by auto
    qed
  qed
qed

lemma scan_up_in_range: "scan_up a p l = Inr l' \<Longrightarrow> 0 \<le> l \<and> l < int (length a)"
  by (subst (asm) scan_up.simps) (auto split: if_splits)

lemma scan_down_in_range: "scan_down a p r = Inr r' \<Longrightarrow> 0 \<le> r \<and> r < int (length a)"
  by (subst (asm) scan_down.simps) (auto split: if_splits)

lemma partition_loop_in_range:
  "partition_loop a p l r = Inr x \<Longrightarrow> 0 \<le> l \<and> r < int (length a)"
  by (subst (asm) partition_loop.simps)
    (auto split: sum.splits dest: scan_up_in_range scan_down_in_range)

subsection \<open>The loop on a block of elements equal to the pivot\<close>

text \<open>
  When the range consists of elements below the pivot, then a block of elements equal to
  the pivot at the indices \<open>l0 .. r0\<close>, then elements above the pivot, the loop swaps its
  way through the block from both ends, changes nothing and stops in the middle of the
  block.
\<close>

lemma swap_same:
  assumes e: "a ! nat l = a ! nat r"
  shows "swap a l r = a"
proof -
  have 1: "a[nat l := a ! nat r] = a" by (simp only: e [symmetric] list_update_id)
  have "a[nat l := a ! nat r, nat r := a ! nat l] = a[nat r := a ! nat l]" by (simp only: 1)
  also have "\<dots> = a" by (simp only: e list_update_id)
  finally show ?thesis by (simp only: swap_def)
qed

lemma scan_up_stops:
  assumes "0 \<le> l" "l \<le> l0" "l0 < int (length a)" "\<not> a ! nat l0 < p"
    "\<forall>k. l \<le> k \<and> k < l0 \<longrightarrow> a ! nat k < p"
  shows "scan_up a p l = Inr l0"
proof -
  from scan_up_spec [OF assms(1,2,3,4)] obtain l' where
    l': "scan_up a p l = Inr l'" "l \<le> l'" "l' \<le> l0" "\<not> a ! nat l' < p"
    by blast
  with assms(5) have "l' = l0" by (cases "l' < l0") auto
  with l'(1) show ?thesis by simp
qed

lemma scan_down_stops:
  assumes "r0 \<le> r" "0 \<le> r0" "r < int (length a)" "\<not> a ! nat r0 > p"
    "\<forall>k. r0 < k \<and> k \<le> r \<longrightarrow> a ! nat k > p"
  shows "scan_down a p r = Inr r0"
proof -
  from scan_down_spec [OF assms(1,2,3,4)] obtain r' where
    r': "scan_down a p r = Inr r'" "r' \<le> r" "r0 \<le> r'" "\<not> a ! nat r' > p"
    by blast
  with assms(5) have "r' = r0" by (cases "r0 < r'") auto
  with r'(1) show ?thesis by simp
qed

lemma partition_loop_block:
  assumes "0 \<le> l" "l \<le> l0" "l0 \<le> r0" "r0 \<le> r" "r < int (length a)"
    "\<forall>k. l \<le> k \<and> k < l0 \<longrightarrow> a ! nat k < p"
    "\<forall>k. l0 \<le> k \<and> k \<le> r0 \<longrightarrow> a ! nat k = p"
    "\<forall>k. r0 < k \<and> k \<le> r \<longrightarrow> p < a ! nat k"
  shows "partition_loop a p l r = Inr (a, (l0 + r0) div 2 + 1, (l0 + r0 - 1) div 2)"
  using assms
proof (induction "nat (r0 - l0)" arbitrary: l l0 r0 r rule: less_induct)
  case less
  have up: "scan_up a p l = Inr l0"
    using less.prems by (intro scan_up_stops) auto
  have down: "scan_down a p r = Inr r0"
    using less.prems by (intro scan_down_stops) auto
  have same: "swap a l0 r0 = a"
    using less.prems by (intro swap_same) auto
  show ?case
  proof (cases "l0 + 1 \<le> r0 - 1")
    case False
    then have "r0 = l0 \<or> r0 = l0 + 1" using less.prems(3) by auto
    then have "(l0 + r0) div 2 + 1 = l0 + 1" "(l0 + r0 - 1) div 2 = r0 - 1" by auto
    moreover have "partition_loop a p l r = Inr (a, l0 + 1, r0 - 1)"
      using up down same False less.prems(3) by (subst partition_loop.simps) simp
    ultimately show ?thesis by simp
  next
    case True
    have "partition_loop a p (l0 + 1) (r0 - 1)
        = Inr (a, ((l0 + 1) + (r0 - 1)) div 2 + 1, ((l0 + 1) + (r0 - 1) - 1) div 2)"
    proof (rule less.hyps)
      show "nat (r0 - 1 - (l0 + 1)) < nat (r0 - l0)" using True by simp
      show "0 \<le> l0 + 1" "l0 + 1 \<le> l0 + 1" "l0 + 1 \<le> r0 - 1" "r0 - 1 \<le> r0 - 1"
        "r0 - 1 < int (length a)"
        using less.prems True by simp_all
      show "\<forall>k. l0 + 1 \<le> k \<and> k < l0 + 1 \<longrightarrow> a ! nat k < p" by simp
      show "\<forall>k. l0 + 1 \<le> k \<and> k \<le> r0 - 1 \<longrightarrow> a ! nat k = p" using less.prems(7) by simp
      show "\<forall>k. r0 - 1 < k \<and> k \<le> r0 - 1 \<longrightarrow> p < a ! nat k" by simp
    qed
    moreover have "partition_loop a p l r = partition_loop a p (l0 + 1) (r0 - 1)"
      using up down same True less.prems(3) by (subst partition_loop.simps) simp
    ultimately show ?thesis by simp
  qed
qed

text \<open>C++ division of a \<^verbatim>\<open>long\<close> by 2 truncates towards zero.\<close>

definition c_div2 :: "int \<Rightarrow> int" where
  "c_div2 x = (if x < 0 then - ((- x) div 2) else x div 2)"

text \<open>
  Lines 75-84: \<open>l = left\<close>, \<open>r = right\<close>, the pivot is read at \<open>(l + r) / 2\<close>, then the
  loop runs. The result is the partitioned array with the final \<open>l\<close> and \<open>r\<close>.
\<close>

definition qs_partition :: "int list \<Rightarrow> int \<Rightarrow> int \<Rightarrow> fault + (int list \<times> int \<times> int)" where
  "qs_partition a left right =
     (case long_add left right of
        Inl e \<Rightarrow> Inl e
      | Inr s \<Rightarrow>
          (let m = c_div2 s
           in if 0 \<le> m \<and> m < int (length a) then partition_loop a (a ! nat m) left right
              else Inl OutOfRange))"

lemma long_add_fits:
  "0 \<le> x \<Longrightarrow> 0 \<le> y \<Longrightarrow> x + y \<le> LONG_MAX \<Longrightarrow> long_add x y = Inr (x + y)"
  by (simp add: long_add_def LONG_MIN_def)

lemma c_div2_between: "left < right \<Longrightarrow> left \<le> c_div2 (left + right) \<and> c_div2 (left + right) \<le> right"
  by (auto simp: c_div2_def)

lemma qs_partition_spec:
  assumes "0 \<le> left" "left < right" "right < int (length a)" "left + right \<le> LONG_MAX"
  shows "\<exists>a' l r. qs_partition a left right = Inr (a', l, r) \<and>
     left < l \<and> r < right \<and> r < l \<and> l \<le> right + 1 \<and> left - 1 \<le> r \<and>
     length a' = length a \<and> mset a' = mset a \<and>
     (\<forall>k. 0 \<le> k \<and> k < int (length a) \<and> (k < left \<or> right < k) \<longrightarrow> a' ! nat k = a ! nat k) \<and>
     (\<forall>k. left \<le> k \<and> k \<le> r \<longrightarrow> a' ! nat k \<le> a ! nat (c_div2 (left + right))) \<and>
     (\<forall>k. l \<le> k \<and> k \<le> right \<longrightarrow> a ! nat (c_div2 (left + right)) \<le> a' ! nat k) \<and>
     (\<forall>k. r < k \<and> k < l \<longrightarrow> a' ! nat k = a ! nat (c_div2 (left + right)))"
proof -
  define m where "m = c_div2 (left + right)"
  define p where "p = a ! nat m"
  from c_div2_between [OF assms(2)] have m: "left \<le> m" "m \<le> right" by (simp_all add: m_def)
  have "long_add left right = Inr (left + right)"
    using assms by (intro long_add_fits) simp_all
  then have eq: "qs_partition a left right = partition_loop a p left right"
    using m assms by (simp add: qs_partition_def m_def [symmetric] p_def Let_def)
  have "\<exists>k. left \<le> k \<and> k \<le> right \<and> p \<le> a ! nat k"
    "\<exists>k. left \<le> k \<and> k \<le> right \<and> a ! nat k \<le> p"
    "\<exists>k. left \<le> k \<and> k \<le> right \<and> a ! nat k = p"
    using m by (auto simp: p_def)
  from partition_loop_spec [OF assms(1) order_refl order_refl assms(3) _ _ this(1,2)] this(3)
  show ?thesis unfolding eq p_def [symmetric] m_def [symmetric]
    by (auto simp: p_def)
qed

lemma qs_partition_shrinks:
  assumes "qs_partition a left right = Inr (a', l, r)" "left < right"
  shows "left < l \<and> r < right"
proof -
  from assms(1) have "0 \<le> left \<and> right < int (length a) \<and> left + right \<le> LONG_MAX"
    by (auto simp: qs_partition_def long_add_def Let_def split: if_splits sum.splits
        dest: partition_loop_in_range)
  with qs_partition_spec [of left right a] assms show ?thesis by auto
qed

text \<open>Line 67, the cutoff below which a range is sorted by \<^verbatim>\<open>std::sort\<close>.\<close>

definition tiny :: int where
  "tiny = 1000"

text \<open>
  Modelled from the spec: the sequential sort routine \<open>sortRange(buffer, lo, hi)\<close>, in the
  source \<^verbatim>\<open>std::sort(array + lo, array + hi)\<close> of the C++ library, which is not part of
  the repository. It sorts the elements at the indices \<open>lo ..< hi\<close> in ascending order in
  place and touches nothing else; it is the base case of \<^verbatim>\<open>quicksort_job\<close> (line 70) and
  the sequential baseline of \<^verbatim>\<open>main\<close> (line 160).
\<close>

definition std_sort :: "int list \<Rightarrow> int \<Rightarrow> int \<Rightarrow> fault + int list" where
  "std_sort a lo hi =
     (if 0 \<le> lo \<and> lo \<le> hi \<and> hi \<le> int (length a) then
        Inr (take (nat lo) a @ sort (take (nat (hi - lo)) (drop (nat lo) a)) @ drop (nat hi) a)
      else Inl OutOfRange)"

text \<open>
  \<^verbatim>\<open>quicksort_job\<close>, lines 66-111. The pool and the fork-join state are not arguments here:
  a call \<^verbatim>\<open>spawn_task_in_pool(pool, state, [=, &pool]() { quicksort_job(pool, array, lo, hi, state,
  threshold); })\<close> creates a task that is run later by some worker, so the function
  returns the array as the calling thread leaves it together with the list of the
  ranges \<open>(lo, hi)\<close> of the tasks it created, in the order of their creation. A direct
  recursive call is the recursion of the function.
\<close>

function quicksort_job ::
  "int list \<Rightarrow> int \<Rightarrow> int \<Rightarrow> int \<Rightarrow> fault + (int list \<times> (int \<times> int) list)" where
  "quicksort_job a left right threshold =
     (if left \<ge> right then Inr (a, [])
      else if right - left \<le> tiny then
        (case std_sort a left (right + 1) of
           Inl e \<Rightarrow> Inl e
         | Inr a' \<Rightarrow> Inr (a', []))
      else
        (case qs_partition a left right of
           Inl e \<Rightarrow> Inl e
         | Inr (a1, l, r) \<Rightarrow>
             if r - left > threshold \<and> right - l > threshold then
               (case quicksort_job a1 l right threshold of
                  Inl e \<Rightarrow> Inl e
                | Inr (a2, spawned) \<Rightarrow> Inr (a2, (left, r) # spawned))
             else if r - left > threshold then
               (case quicksort_job a1 l right threshold of
                  Inl e \<Rightarrow> Inl e
                | Inr (a2, spawned) \<Rightarrow> Inr (a2, (left, r) # spawned))
             else if right - l > threshold then
               (case quicksort_job a1 left r threshold of
                  Inl e \<Rightarrow> Inl e
                | Inr (a2, spawned) \<Rightarrow> Inr (a2, (l, right) # spawned))
             else
               (case quicksort_job a1 left r threshold of
                  Inl e \<Rightarrow> Inl e
                | Inr (a2, spawned1) \<Rightarrow>
                    (case quicksort_job a2 l right threshold of
                       Inl e \<Rightarrow> Inl e
                     | Inr (a3, spawned2) \<Rightarrow> Inr (a3, spawned1 @ spawned2)))))"
  by pat_completeness auto
termination
proof (relation "measure (\<lambda>(a, left, right, threshold). nat (right - left))", goal_cases)
  case 1
  then show ?case by simp
next
  case (2 a left right threshold x2 a1 x2' l r)
  with qs_partition_shrinks [of a left right a1 l r] show ?case by auto
next
  case (3 a left right threshold x2 a1 x2' l r)
  with qs_partition_shrinks [of a left right a1 l r] show ?case by auto
next
  case (4 a left right threshold x2 a1 x2' l r)
  with qs_partition_shrinks [of a left right a1 l r] show ?case by auto
next
  case (5 a left right threshold x2 a1 x2' l r)
  with qs_partition_shrinks [of a left right a1 l r] show ?case by auto
next
  case (6 a left right threshold x2 a1 x2' l r)
  with qs_partition_shrinks [of a left right a1 l r] show ?case by auto
qed

declare quicksort_job.simps [simp del]

subsection \<open>Ranges of an array\<close>

text \<open>
  \<open>slice a left right\<close> is the sequence of the elements at the indices \<open>left .. right\<close>;
  \<open>same_outside a a' left right\<close> says that \<open>a'\<close> has the length of \<open>a\<close> and the same
  element at every index outside \<open>left .. right\<close>.
\<close>

definition slice :: "int list \<Rightarrow> int \<Rightarrow> int \<Rightarrow> int list" where
  "slice a left right = take (nat (right + 1 - left)) (drop (nat left) a)"

definition same_outside :: "int list \<Rightarrow> int list \<Rightarrow> int \<Rightarrow> int \<Rightarrow> bool" where
  "same_outside a a' left right \<longleftrightarrow>
     length a' = length a \<and>
     (\<forall>k. 0 \<le> k \<and> k < int (length a) \<and> (k < left \<or> right < k) \<longrightarrow> a' ! nat k = a ! nat k)"

lemma split3:
  "lo \<le> hi \<Longrightarrow> hi \<le> length a \<Longrightarrow> a = take lo a @ take (hi - lo) (drop lo a) @ drop hi a"
proof -
  assume "lo \<le> hi" "hi \<le> length a"
  have "drop lo a = take (hi - lo) (drop lo a) @ drop (hi - lo) (drop lo a)"
    by (rule append_take_drop_id [symmetric])
  moreover have "drop (hi - lo) (drop lo a) = drop hi a" using \<open>lo \<le> hi\<close> by simp
  ultimately have "drop lo a = take (hi - lo) (drop lo a) @ drop hi a" by metis
  moreover have "a = take lo a @ drop lo a" by (rule append_take_drop_id [symmetric])
  ultimately show ?thesis by metis
qed

lemma slice_mset_nat:
  assumes "length b = length a" "mset b = mset a" "lo \<le> hi" "hi \<le> length a"
    "\<forall>k < length a. k < lo \<or> hi \<le> k \<longrightarrow> b ! k = a ! k"
  shows "mset (take (hi - lo) (drop lo b)) = mset (take (hi - lo) (drop lo a))"
proof -
  have t: "take lo b = take lo a"
    using assms by (intro nth_take_lemma) auto
  have d: "drop hi b = drop hi a"
    using assms by (intro nth_equalityI) auto
  have "mset a = mset (take lo a) + mset (take (hi - lo) (drop lo a)) + mset (drop hi a)"
    using split3 [OF assms(3,4)] by (metis mset_append add.assoc)
  moreover have "mset b = mset (take lo b) + mset (take (hi - lo) (drop lo b)) + mset (drop hi b)"
    using split3 [of lo hi b] assms by (metis mset_append add.assoc)
  ultimately show ?thesis using assms(2) t d by simp
qed

lemma slice_mset:
  assumes "same_outside a b left right" "mset b = mset a"
    "0 \<le> left" "left \<le> right + 1" "right < int (length a)"
  shows "mset (slice b left right) = mset (slice a left right)"
proof -
  have "\<forall>k < length a. k < nat left \<or> nat (right + 1) \<le> k \<longrightarrow> b ! k = a ! k"
  proof (intro allI impI)
    fix k assume "k < length a" "k < nat left \<or> nat (right + 1) \<le> k"
    then have "0 \<le> int k \<and> int k < int (length a) \<and> (int k < left \<or> right < int k)"
      using assms(3,4) by auto
    with assms(1) have "b ! nat (int k) = a ! nat (int k)"
      unfolding same_outside_def by blast
    then show "b ! k = a ! k" by simp
  qed
  from slice_mset_nat [of b a "nat left" "nat (right + 1)", OF _ assms(2) _ _ this] assms
  have "mset (take (nat (right + 1) - nat left) (drop (nat left) b))
      = mset (take (nat (right + 1) - nat left) (drop (nat left) a))"
    by (auto simp: same_outside_def)
  moreover have "nat (right + 1) - nat left = nat (right + 1 - left)"
    using assms(3,4) by auto
  ultimately show ?thesis by (simp add: slice_def)
qed

lemma slice_nth:
  "0 \<le> left \<Longrightarrow> left \<le> k \<Longrightarrow> k \<le> right \<Longrightarrow> right < int (length a) \<Longrightarrow>
   slice a left right ! nat (k - left) = a ! nat k"
proof -
  assume a: "0 \<le> left" "left \<le> k" "k \<le> right" "right < int (length a)"
  then have "nat (k - left) < nat (right + 1 - left)" "nat left + nat (k - left) = nat k"
    "nat left + nat (k - left) \<le> length a"
    by auto
  then show ?thesis by (simp add: slice_def)
qed

lemma slice_length:
  "0 \<le> left \<Longrightarrow> left \<le> right + 1 \<Longrightarrow> right < int (length a) \<Longrightarrow>
   length (slice a left right) = nat (right + 1 - left)"
  by (auto simp: slice_def)

lemma std_sort_spec:
  assumes "0 \<le> left" "left \<le> right + 1" "right < int (length a)"
  shows "\<exists>a'. std_sort a left (right + 1) = Inr a' \<and> same_outside a a' left right \<and>
           mset a' = mset a \<and> slice a' left right = sort (slice a left right)"
proof -
  define L where "L = nat left"
  define H where "H = nat (right + 1)"
  define S where "S = take (H - L) (drop L a)"
  define a' where "a' = take L a @ sort S @ drop H a"
  have LH: "L \<le> H" "H \<le> length a" using assms by (auto simp: L_def H_def)
  have HL: "nat (right + 1 - left) = H - L" using assms by (auto simp: L_def H_def)
  have S: "slice a left right = S" by (simp add: slice_def S_def HL L_def)
  have lenS: "length S = H - L" using LH by (simp add: S_def)
  have eq: "std_sort a left (right + 1) = Inr a'"
    using assms by (simp add: std_sort_def a'_def S_def L_def H_def HL)
  have len: "length a' = length a" using LH by (simp add: a'_def lenS)
  have "mset a = mset (take L a) + mset S + mset (drop H a)"
    using split3 [OF LH] unfolding S_def by (metis mset_append add.assoc)
  then have ms: "mset a' = mset a" by (simp add: a'_def)
  have out: "a' ! k = a ! k" if "k < length a" "k < L \<or> H \<le> k" for k
  proof (cases "k < L")
    case True
    with that LH show ?thesis by (simp add: a'_def nth_append)
  next
    case False
    with that have k: "H \<le> k" by simp
    then have "\<not> k < L" "\<not> k - L < H - L" "k - L - (H - L) = k - H"
      using LH by auto
    then have "a' ! k = drop H a ! (k - H)"
      using LH by (simp add: a'_def nth_append lenS)
    then show ?thesis using k that by simp
  qed
  have so: "same_outside a a' left right"
    unfolding same_outside_def
  proof (intro conjI allI impI)
    show "length a' = length a" by (rule len)
  next
    fix k assume k: "0 \<le> k \<and> k < int (length a) \<and> (k < left \<or> right < k)"
    then have "nat k < length a" "nat k < L \<or> H \<le> nat k"
      using assms by (auto simp: L_def H_def)
    then show "a' ! nat k = a ! nat k" by (rule out)
  qed
  have "drop L a' = sort S @ drop H a"
    using LH by (simp add: a'_def)
  then have "take (H - L) (drop L a') = sort S" by (simp add: lenS)
  then have "slice a' left right = sort S" by (simp add: slice_def HL L_def)
  with eq so ms S show ?thesis by simp
qed

lemma same_outside_nth:
  "same_outside a b L R \<Longrightarrow> 0 \<le> k \<Longrightarrow> k < int (length a) \<Longrightarrow> k < L \<or> R < k \<Longrightarrow>
   b ! nat k = a ! nat k"
  by (simp add: same_outside_def)

lemma same_outside_length: "same_outside a b L R \<Longrightarrow> length b = length a"
  by (simp add: same_outside_def)

lemma same_outside_refl: "same_outside a a L R"
  by (simp add: same_outside_def)

lemma same_outside_trans:
  "same_outside a b L1 R1 \<Longrightarrow> same_outside b c L2 R2 \<Longrightarrow>
   left \<le> L1 \<Longrightarrow> R1 \<le> right \<Longrightarrow> left \<le> L2 \<Longrightarrow> R2 \<le> right \<Longrightarrow>
   same_outside a c left right"
  by (auto simp: same_outside_def)

lemma range_bound_preserved:
  assumes so: "same_outside a b L R" and ms: "mset b = mset a"
    and L: "0 \<le> L" and R: "R < int (length a)"
    and P: "\<forall>k. L \<le> k \<and> k \<le> R \<longrightarrow> P (a ! nat k)"
    and k: "L \<le> k" "k \<le> R"
  shows "P (b ! nat k)"
proof -
  have LR: "L \<le> R + 1" using k by simp
  have lb: "length b = length a" using so by (rule same_outside_length)
  have "mset (slice b L R) = mset (slice a L R)"
    using slice_mset [OF so ms L LR R] .
  then have sets: "set (slice b L R) = set (slice a L R)" by (rule mset_eq_setD)
  have "b ! nat k = slice b L R ! nat (k - L)"
    using slice_nth [OF L k(1) k(2), of b] R lb by simp
  moreover have "nat (k - L) < length (slice b L R)"
    using slice_length [OF L LR, of b] R lb k by simp
  ultimately have "b ! nat k \<in> set (slice b L R)" by (metis nth_mem)
  with sets obtain j where j: "j < length (slice a L R)" "slice a L R ! j = b ! nat k"
    by (auto simp: in_set_conv_nth)
  from j(1) slice_length [OF L LR R] have jb: "L + int j \<le> R" by simp
  have "slice a L R ! nat (L + int j - L) = a ! nat (L + int j)"
    by (rule slice_nth [OF L _ jb R]) simp
  then have "b ! nat k = a ! nat (L + int j)" using j(2) by simp
  moreover have "P (a ! nat (L + int j))" using P jb by simp
  ultimately show ?thesis by simp
qed

lemma partition_example:
  "qs_partition [5, 3, 8, 1, 9, 2] 0 5 = Inr ([5, 3, 2, 1, 9, 8], 4, 3)"
  by (simp add: qs_partition_def long_add_def LONG_MAX_def LONG_MIN_def c_div2_def
      partition_loop.simps scan_up.simps scan_down.simps swap_def)




subsection \<open>What one call of \<open>quicksort_job\<close> guarantees\<close>

text \<open>
  A created task is the range it will sort. \<open>within\<close>: every created task lies in the
  range of the call; \<open>pdisj\<close>: the created tasks are pairwise disjoint as sets of
  indices; \<open>ordered_mod a left right sp\<close>: any two indices of the range are in order in
  \<open>a\<close> unless both belong to one task of \<open>sp\<close> (which has still to sort them);
  \<open>cost\<close>: twice the extent of a task plus one, summed over the tasks, the measure that
  bounds the number of tasks still to run.
\<close>

definition in_rng :: "int \<times> int \<Rightarrow> int \<Rightarrow> bool" where
  "in_rng p k \<longleftrightarrow> fst p \<le> k \<and> k \<le> snd p"

definition rng_disj :: "int \<times> int \<Rightarrow> int \<times> int \<Rightarrow> bool" where
  "rng_disj p q \<longleftrightarrow> snd p < fst p \<or> snd q < fst q \<or> snd p < fst q \<or> snd q < fst p"

fun pdisj :: "(int \<times> int) list \<Rightarrow> bool" where
  "pdisj [] = True"
| "pdisj (p # ps) = ((\<forall>q \<in> set ps. rng_disj p q) \<and> pdisj ps)"

definition within :: "(int \<times> int) list \<Rightarrow> int \<Rightarrow> int \<Rightarrow> bool" where
  "within sp left right \<longleftrightarrow> (\<forall>p \<in> set sp. left \<le> fst p \<and> snd p \<le> right)"

definition cost :: "(int \<times> int) list \<Rightarrow> nat" where
  "cost sp = sum_list (map (\<lambda>p. 2 * nat (snd p - fst p) + 1) sp)"

definition ordered_mod :: "int list \<Rightarrow> int \<Rightarrow> int \<Rightarrow> (int \<times> int) list \<Rightarrow> bool" where
  "ordered_mod a left right sp \<longleftrightarrow>
     (\<forall>i j. left \<le> i \<and> i < j \<and> j \<le> right \<longrightarrow>
        a ! nat i \<le> a ! nat j \<or> (\<exists>p \<in> set sp. in_rng p i \<and> in_rng p j))"

definition job_post ::
  "int list \<Rightarrow> int \<Rightarrow> int \<Rightarrow> fault + (int list \<times> (int \<times> int) list) \<Rightarrow> bool" where
  "job_post a left right res \<longleftrightarrow>
     (case res of
        Inl e \<Rightarrow> False
      | Inr (a', sp) \<Rightarrow>
          same_outside a a' left right \<and> mset a' = mset a \<and> within sp left right \<and>
          pdisj sp \<and> cost sp \<le> 2 * nat (right - left) \<and> ordered_mod a' left right sp)"

lemma pdisj_append:
  "pdisj (xs @ ys) \<longleftrightarrow> pdisj xs \<and> pdisj ys \<and> (\<forall>x \<in> set xs. \<forall>y \<in> set ys. rng_disj x y)"
  by (induction xs) auto

lemma within_disj:
  "within xs l1 r1 \<Longrightarrow> within ys l2 r2 \<Longrightarrow> r1 < l2 \<Longrightarrow> \<forall>x \<in> set xs. \<forall>y \<in> set ys. rng_disj x y"
  by (fastforce simp: within_def rng_disj_def)

lemma within_mono:
  "within sp l r \<Longrightarrow> left \<le> l \<Longrightarrow> r \<le> right \<Longrightarrow> within sp left right"
  by (fastforce simp: within_def)

lemma cost_append: "cost (xs @ ys) = cost xs + cost ys"
  by (simp add: cost_def)

lemma ordered_mod_frame:
  assumes "ordered_mod a left right sp" "same_outside a b L R" "right < L \<or> R < left"
    "0 \<le> left" "right < int (length a)"
  shows "ordered_mod b left right sp"
  unfolding ordered_mod_def
proof (intro allI impI)
  fix i j assume ij: "left \<le> i \<and> i < j \<and> j \<le> right"
  then have "b ! nat i = a ! nat i" "b ! nat j = a ! nat j"
    using assms(3,4,5) by (auto intro!: same_outside_nth [OF assms(2)])
  with assms(1) ij show "b ! nat i \<le> b ! nat j \<or> (\<exists>p \<in> set sp. in_rng p i \<and> in_rng p j)"
    unfolding ordered_mod_def by auto
qed

lemma ordered_mod_join:
  assumes "r < l"
    and lo: "\<forall>k. left \<le> k \<and> k \<le> r \<longrightarrow> a ! nat k \<le> pv"
    and mid: "\<forall>k. r < k \<and> k < l \<longrightarrow> a ! nat k = pv"
    and hi: "\<forall>k. l \<le> k \<and> k \<le> right \<longrightarrow> pv \<le> a ! nat k"
    and L: "ordered_mod a left r spL" and R: "ordered_mod a l right spR"
  shows "ordered_mod a left right (spL @ spR)"
  unfolding ordered_mod_def
proof (intro allI impI)
  fix i j assume ij: "left \<le> i \<and> i < j \<and> j \<le> right"
  have ile: "a ! nat i \<le> pv" if "i < l"
    using that lo mid ij by (cases "i \<le> r") auto
  have jge: "pv \<le> a ! nat j" if "r < j"
    using that hi mid ij by (cases "l \<le> j") auto
  show "a ! nat i \<le> a ! nat j \<or> (\<exists>p \<in> set (spL @ spR). in_rng p i \<and> in_rng p j)"
  proof (cases "j \<le> r")
    case True
    with L ij show ?thesis unfolding ordered_mod_def by auto
  next
    case jr: False
    show ?thesis
    proof (cases "l \<le> i")
      case True
      with R ij show ?thesis unfolding ordered_mod_def by auto
    next
      case False
      with jr ile jge have "a ! nat i \<le> pv" "pv \<le> a ! nat j" by auto
      then show ?thesis by simp
    qed
  qed
qed

lemma ordered_mod_cover: "ordered_mod a left r [(left, r)]"
  by (auto simp: ordered_mod_def in_rng_def)

lemma within_append: "within (xs @ ys) l r \<longleftrightarrow> within xs l r \<and> within ys l r"
  by (simp add: within_def ball_Un)

lemma ordered_mod_set:
  "ordered_mod a left right sp \<Longrightarrow> set sp = set sp' \<Longrightarrow> ordered_mod a left right sp'"
  by (simp add: ordered_mod_def)

lemma rng_disj_sym: "rng_disj p q \<Longrightarrow> rng_disj q p"
  by (auto simp: rng_disj_def)

lemma assemble:
  assumes b: "0 \<le> left" "right < int (length a1)" "left < l" "r < right" "r < l"
      "left - 1 \<le> r" "l \<le> right + 1"
    and P1: "\<forall>k. left \<le> k \<and> k \<le> r \<longrightarrow> a1 ! nat k \<le> pv"
    and P2: "\<forall>k. l \<le> k \<and> k \<le> right \<longrightarrow> pv \<le> a1 ! nat k"
    and P3: "\<forall>k. r < k \<and> k < l \<longrightarrow> a1 ! nat k = pv"
    and L: "same_outside a1 a2 left r" "mset a2 = mset a1" "ordered_mod a2 left r spL"
      "within spL left r" "pdisj spL"
    and R: "same_outside a2 a3 l right" "mset a3 = mset a2" "ordered_mod a3 l right spR"
      "within spR l right" "pdisj spR"
    and c: "cost spL + cost spR \<le> 2 * nat (right - left)"
    and sp: "sp = spL @ spR \<or> sp = spR @ spL"
  shows "same_outside a1 a3 left right \<and> mset a3 = mset a1 \<and> within sp left right \<and>
         pdisj sp \<and> cost sp \<le> 2 * nat (right - left) \<and> ordered_mod a3 left right sp"
proof -
  have len2: "length a2 = length a1" using L(1) by (rule same_outside_length)
  have so: "same_outside a1 a3 left right"
    using same_outside_trans [OF L(1) R(1), of left right] b by simp
  have lo2: "\<forall>k. left \<le> k \<and> k \<le> r \<longrightarrow> a2 ! nat k \<le> pv"
  proof (intro allI impI)
    fix k assume k: "left \<le> k \<and> k \<le> r"
    show "a2 ! nat k \<le> pv"
      by (rule range_bound_preserved [OF L(1) L(2) b(1) _ P1]) (use k b in auto)
  qed
  have lo: "\<forall>k. left \<le> k \<and> k \<le> r \<longrightarrow> a3 ! nat k \<le> pv"
  proof (intro allI impI)
    fix k assume k: "left \<le> k \<and> k \<le> r"
    then have "a3 ! nat k = a2 ! nat k"
      using b len2 by (intro same_outside_nth [OF R(1)]) auto
    with lo2 k show "a3 ! nat k \<le> pv" by simp
  qed
  have mid: "\<forall>k. r < k \<and> k < l \<longrightarrow> a3 ! nat k = pv"
  proof (intro allI impI)
    fix k assume k: "r < k \<and> k < l"
    then have "a3 ! nat k = a2 ! nat k"
      using b len2 by (intro same_outside_nth [OF R(1)]) auto
    moreover have "a2 ! nat k = a1 ! nat k"
      using b k by (intro same_outside_nth [OF L(1)]) auto
    ultimately show "a3 ! nat k = pv" using P3 k by simp
  qed
  have hi2: "\<forall>k. l \<le> k \<and> k \<le> right \<longrightarrow> pv \<le> a2 ! nat k"
  proof (intro allI impI)
    fix k assume k: "l \<le> k \<and> k \<le> right"
    then have "a2 ! nat k = a1 ! nat k"
      using b by (intro same_outside_nth [OF L(1)]) auto
    with P2 k show "pv \<le> a2 ! nat k" by simp
  qed
  have hi: "\<forall>k. l \<le> k \<and> k \<le> right \<longrightarrow> pv \<le> a3 ! nat k"
  proof (intro allI impI)
    fix k assume k: "l \<le> k \<and> k \<le> right"
    show "pv \<le> a3 ! nat k"
      by (rule range_bound_preserved [OF R(1) R(2) _ _ hi2]) (use k b len2 in auto)
  qed
  have oL: "ordered_mod a3 left r spL"
    by (rule ordered_mod_frame [OF L(3) R(1)]) (use b len2 in auto)
  have om: "ordered_mod a3 left right (spL @ spR)"
    by (rule ordered_mod_join [OF b(5) lo mid hi oL R(3)])
  have om': "ordered_mod a3 left right sp"
    using sp by (auto intro: ordered_mod_set [OF om])
  have "within spL left right" "within spR left right"
    using within_mono [OF L(4), of left right] within_mono [OF R(4), of left right] b
    by simp_all
  then have w: "within sp left right"
    using sp by (auto simp: within_append)
  have d: "\<forall>x \<in> set spL. \<forall>y \<in> set spR. rng_disj x y"
    by (rule within_disj [OF L(4) R(4) b(5)])
  have d': "\<forall>y \<in> set spR. \<forall>x \<in> set spL. rng_disj y x"
    using d rng_disj_sym by blast
  have pd: "pdisj sp"
    using sp d d' L(5) R(5) by (auto simp: pdisj_append)
  have sm: "cost sp \<le> 2 * nat (right - left)"
    using sp c by (auto simp: cost_append)
  from so L(2) R(2) w pd sm om' show ?thesis by simp
qed

lemma spawn_post:
  "ordered_mod a lo' hi' [(lo', hi')] \<and> within [(lo', hi')] lo' hi' \<and> pdisj [(lo', hi')]"
  by (auto simp: ordered_mod_cover within_def)

lemma cost_single: "cost [(lo', hi')] = 2 * nat (hi' - lo') + 1"
  by (simp add: cost_def)

lemma split_weight:
  "left < right \<Longrightarrow> left < l \<Longrightarrow> r < right \<Longrightarrow> r < l \<Longrightarrow>
   nat (r - left) + nat (right - l) + 1 \<le> nat (right - left)"
  by arith

lemma job_postD:
  "job_post a left right res \<Longrightarrow>
   \<exists>a' sp. res = Inr (a', sp) \<and> same_outside a a' left right \<and> mset a' = mset a \<and>
     within sp left right \<and> pdisj sp \<and> cost sp \<le> 2 * nat (right - left) \<and>
     ordered_mod a' left right sp"
  by (auto simp: job_post_def split: sum.splits)

lemma slice_sorted_ordered:
  assumes "0 \<le> left" "left \<le> right + 1" "right < int (length a)" "sorted (slice a left right)"
  shows "ordered_mod a left right []"
  unfolding ordered_mod_def
proof (intro allI impI)
  fix i j assume ij: "left \<le> i \<and> i < j \<and> j \<le> right"
  have "slice a left right ! nat (i - left) \<le> slice a left right ! nat (j - left)"
    using assms ij slice_length [OF assms(1,2,3)]
    by (intro sorted_nth_mono [OF assms(4)]) auto
  moreover have "slice a left right ! nat (i - left) = a ! nat i"
    using assms ij by (intro slice_nth) auto
  moreover have "slice a left right ! nat (j - left) = a ! nat j"
    using assms ij by (intro slice_nth) auto
  ultimately show "a ! nat i \<le> a ! nat j \<or> (\<exists>p \<in> set []. in_rng p i \<and> in_rng p j)"
    by simp
qed

lemma quicksort_job_spec:
  "(left < right \<longrightarrow> 0 \<le> left \<and> right < int (length a) \<and> 2 * right \<le> LONG_MAX) \<Longrightarrow>
   job_post a left right (quicksort_job a left right threshold)"
proof (induction a left right threshold rule: quicksort_job.induct)
  case (1 a left right threshold)
  show ?case
  proof (cases "right \<le> left")
    case True
    then have "quicksort_job a left right threshold = Inr (a, [])"
      by (subst quicksort_job.simps) simp
    then show ?thesis
      by (simp add: job_post_def same_outside_refl within_def cost_def ordered_mod_def)
        (use True in auto)
  next
    case nontriv: False
    with "1.prems" have v: "0 \<le> left" "right < int (length a)" "left < right"
      and fits: "2 * right \<le> LONG_MAX" by auto
    from v(3) fits have sum: "left + right \<le> LONG_MAX" by simp
    show ?thesis
    proof (cases "right - left \<le> tiny")
      case True
      from std_sort_spec [OF v(1) _ v(2)] v(3) obtain a' where
        a': "std_sort a left (right + 1) = Inr a'" "same_outside a a' left right"
        "mset a' = mset a" "slice a' left right = sort (slice a left right)"
        by auto
      have "quicksort_job a left right threshold = Inr (a', [])"
        using nontriv True a'(1) by (subst quicksort_job.simps) simp
      moreover have "ordered_mod a' left right []"
        using a'(4) v same_outside_length [OF a'(2)]
        by (intro slice_sorted_ordered) auto
      ultimately show ?thesis
        using a' by (simp add: job_post_def within_def cost_def)
    next
      case big: False
      from qs_partition_spec [OF v(1) v(3) v(2) sum] obtain a1 l r where
        p: "qs_partition a left right = Inr (a1, l, r)"
        "left < l" "r < right" "r < l" "l \<le> right + 1" "left - 1 \<le> r"
        "length a1 = length a" "mset a1 = mset a"
        "\<forall>k. 0 \<le> k \<and> k < int (length a) \<and> (k < left \<or> right < k) \<longrightarrow> a1 ! nat k = a ! nat k"
        "\<forall>k. left \<le> k \<and> k \<le> r \<longrightarrow> a1 ! nat k \<le> a ! nat (c_div2 (left + right))"
        "\<forall>k. l \<le> k \<and> k \<le> right \<longrightarrow> a ! nat (c_div2 (left + right)) \<le> a1 ! nat k"
        "\<forall>k. r < k \<and> k < l \<longrightarrow> a1 ! nat k = a ! nat (c_div2 (left + right))"
        by blast
      have so1: "same_outside a a1 left right"
        using p(7,9) by (simp add: same_outside_def)
      have v1: "0 \<le> left" "right < int (length a1)" using v p(7) by simp_all
      have preL: "left < r \<longrightarrow> 0 \<le> left \<and> r < int (length a1) \<and> 2 * r \<le> LONG_MAX"
        using v1 p(3) fits by simp
      have preR: "l < right \<longrightarrow> 0 \<le> l \<and> right < int (length a2) \<and> 2 * right \<le> LONG_MAX"
        if "length a2 = length a1" for a2 :: "int list"
        using v1 p(2) that fits by simp
      have spL: "ordered_mod a1 left r [(left, r)]" "within [(left, r)] left r"
          "pdisj [(left, r)]"
        using spawn_post [of a1 left r] by simp_all
      have spR: "ordered_mod a' l right [(l, right)]" "within [(l, right)] l right"
          "pdisj [(l, right)]" for a'
        using spawn_post [of a' l right] by simp_all
      note w = split_weight [OF v(3) p(2,3,4)]
      have fin: "job_post a left right (Inr (a3, sp))"
        if "same_outside a1 a3 left right \<and> mset a3 = mset a1 \<and> within sp left right \<and>
            pdisj sp \<and> cost sp \<le> 2 * nat (right - left) \<and>
            ordered_mod a3 left right sp" for a3 sp
        using that so1 p(8) same_outside_trans [OF so1, of a3 left right left right]
        by (simp add: job_post_def)
      show ?thesis
      proof (cases "r - left > threshold")
        case left_big: True
        \<comment> \<open>the left part is spawned, the right part is processed inline\<close>
        have "job_post a1 l right (quicksort_job a1 l right threshold)"
        proof (cases "right - l > threshold")
          case True
          with "1.IH"(1) [OF nontriv big p(1) refl refl _ preR [OF refl]] left_big
          show ?thesis by simp
        next
          case False
          with "1.IH"(2) [OF nontriv big p(1) refl refl _ _ preR [OF refl]] left_big
          show ?thesis by simp
        qed
        from job_postD [OF this] obtain a2 sp where
          r: "quicksort_job a1 l right threshold = Inr (a2, sp)" "same_outside a1 a2 l right"
          "mset a2 = mset a1" "within sp l right" "pdisj sp"
          "cost sp \<le> 2 * nat (right - l)" "ordered_mod a2 l right sp"
          by blast
        have eq: "quicksort_job a left right threshold = Inr (a2, (left, r) # sp)"
          using nontriv big p(1) left_big r(1) by (subst quicksort_job.simps) simp
        have sm: "cost [(left, r)] + cost sp \<le> 2 * nat (right - left)"
          using r(6) w by (simp add: cost_single)
        from assemble [OF v1 p(2,3,4,6,5) p(10,11,12) same_outside_refl refl spL
            r(2,3,7,4,5) sm, of "(left, r) # sp"]
        show ?thesis unfolding eq by (intro fin) simp
      next
        case left_small: False
        have "job_post a1 left r (quicksort_job a1 left r threshold)"
        proof (cases "right - l > threshold")
          case True
          with "1.IH"(3) [OF nontriv big p(1) refl refl _ _ _ preL] left_small
          show ?thesis by simp
        next
          case False
          with "1.IH"(4) [OF nontriv big p(1) refl refl _ _ _ preL] left_small
          show ?thesis by simp
        qed
        from job_postD [OF this] obtain a2 sp1 where
          l: "quicksort_job a1 left r threshold = Inr (a2, sp1)" "same_outside a1 a2 left r"
          "mset a2 = mset a1" "within sp1 left r" "pdisj sp1"
          "cost sp1 \<le> 2 * nat (r - left)" "ordered_mod a2 left r sp1"
          by blast
        have len2: "length a2 = length a1" using l(2) by (rule same_outside_length)
        show ?thesis
        proof (cases "right - l > threshold")
          case right_big: True
          \<comment> \<open>the right part is spawned, the left part is processed inline\<close>
          have eq: "quicksort_job a left right threshold = Inr (a2, (l, right) # sp1)"
            using nontriv big p(1) left_small right_big l(1)
            by (subst quicksort_job.simps) simp
          have sm: "cost sp1 + cost [(l, right)] \<le> 2 * nat (right - left)"
            using l(6) w by (simp add: cost_single)
          from assemble [OF v1 p(2,3,4,6,5) p(10,11,12) l(2,3,7,4,5)
              same_outside_refl refl spR sm, of "(l, right) # sp1"]
          show ?thesis unfolding eq by (intro fin) simp
        next
          case right_small: False
          \<comment> \<open>both parts are processed inline, the left one first\<close>
          have "job_post a2 l right (quicksort_job a2 l right threshold)"
            using "1.IH"(5) [OF nontriv big p(1) refl refl _ _ _ l(1) refl preR [OF len2]]
              left_small right_small
            by simp
          from job_postD [OF this] obtain a3 sp2 where
            r: "quicksort_job a2 l right threshold = Inr (a3, sp2)" "same_outside a2 a3 l right"
            "mset a3 = mset a2" "within sp2 l right" "pdisj sp2"
            "cost sp2 \<le> 2 * nat (right - l)" "ordered_mod a3 l right sp2"
            by blast
          have eq: "quicksort_job a left right threshold = Inr (a3, sp1 @ sp2)"
            using nontriv big p(1) left_small right_small l(1) r(1)
            by (subst quicksort_job.simps) simp
          have sm: "cost sp1 + cost sp2 \<le> 2 * nat (right - left)"
            using l(6) r(6) w by simp
          from assemble [OF v1 p(2,3,4,6,5) p(10,11,12) l(2,3,7,4,5)
              r(2,3,7,4,5) sm, of "sp1 @ sp2"]
          show ?thesis unfolding eq by (intro fin) simp
        qed
      qed
    qed
  qed
qed

subsection \<open>Which part becomes a task\<close>

text \<open>
  The tests of lines 87 and 88 compare the distance of the two end indices of a part with
  the threshold. \<open>part_size lo hi\<close> is the number of elements of the part \<open>lo .. hi\<close>, one
  more than that distance.
\<close>

definition part_size :: "int \<Rightarrow> int \<Rightarrow> int" where
  "part_size lo hi = hi - lo + 1"

lemma small_job_no_tasks:
  assumes "right - left \<le> tiny" "quicksort_job a left right threshold = Inr (a', sp)"
  shows "sp = []"
  using assms(2)
  by (subst (asm) quicksort_job.simps) (use assms(1) in \<open>auto split: if_splits sum.splits\<close>)

lemma spawn_cases:
  assumes "0 \<le> left" "right < int (length a)" "tiny < right - left" "2 * right \<le> LONG_MAX"
  shows "\<exists>a1 l r. qs_partition a left right = Inr (a1, l, r) \<and> left < l \<and> r < right \<and>
     (threshold < r - left \<longrightarrow>
        (\<exists>a2 sp. quicksort_job a1 l right threshold = Inr (a2, sp) \<and>
           quicksort_job a left right threshold = Inr (a2, (left, r) # sp))) \<and>
     (\<not> threshold < r - left \<and> threshold < right - l \<longrightarrow>
        (\<exists>a2 sp. quicksort_job a1 left r threshold = Inr (a2, sp) \<and>
           quicksort_job a left right threshold = Inr (a2, (l, right) # sp))) \<and>
     (\<not> threshold < r - left \<and> \<not> threshold < right - l \<longrightarrow>
        (\<exists>a2 sp1 a3 sp2. quicksort_job a1 left r threshold = Inr (a2, sp1) \<and>
           quicksort_job a2 l right threshold = Inr (a3, sp2) \<and>
           quicksort_job a left right threshold = Inr (a3, sp1 @ sp2)))"
proof -
  have lr: "left < right" "\<not> right \<le> left" "\<not> right - left \<le> tiny"
    using assms(3) by (simp_all add: tiny_def)
  from lr(1) assms(4) have sum: "left + right \<le> LONG_MAX" by simp
  from qs_partition_spec [OF assms(1) lr(1) assms(2) sum] obtain a1 l r where
    p: "qs_partition a left right = Inr (a1, l, r)" "left < l" "r < right"
    "length a1 = length a"
    by blast
  have vL: "left < r \<longrightarrow> 0 \<le> left \<and> r < int (length a1) \<and> 2 * r \<le> LONG_MAX"
    using assms p by simp
  have vR: "l < right \<longrightarrow> 0 \<le> l \<and> right < int (length b) \<and> 2 * right \<le> LONG_MAX"
    if "length b = length a1" for b
    using assms p that by simp
  from job_postD [OF quicksort_job_spec [OF vR [OF refl], of threshold]] obtain aR spR where
    R: "quicksort_job a1 l right threshold = Inr (aR, spR)" by blast
  from job_postD [OF quicksort_job_spec [OF vL, of threshold]] obtain aL spL where
    L: "quicksort_job a1 left r threshold = Inr (aL, spL)" "same_outside a1 aL left r" by blast
  from job_postD [OF quicksort_job_spec [OF vR [OF same_outside_length [OF L(2)]], of threshold]]
  obtain aLR spLR where LR: "quicksort_job aL l right threshold = Inr (aLR, spLR)" by blast
  have 1: "quicksort_job a left right threshold = Inr (aR, (left, r) # spR)"
    if "threshold < r - left"
    using that lr p(1) R by (subst quicksort_job.simps) simp
  have 2: "quicksort_job a left right threshold = Inr (aL, (l, right) # spL)"
    if "\<not> threshold < r - left" "threshold < right - l"
    using that lr p(1) L(1) by (subst quicksort_job.simps) simp
  have 3: "quicksort_job a left right threshold = Inr (aLR, spL @ spLR)"
    if "\<not> threshold < r - left" "\<not> threshold < right - l"
    using that lr p(1) L(1) LR by (subst quicksort_job.simps) simp
  from p(1,2,3) R L(1) LR 1 2 3 show ?thesis by auto
qed

text \<open>
  Three arrays of 1002 elements with their partitions: all elements equal; one smaller
  element in front; one larger element at the end.
\<close>

lemma partition_equal:
  "qs_partition (replicate 1002 0) 0 1001 = Inr (replicate 1002 0, 501, 500)"
proof -
  have "partition_loop (replicate 1002 0) 0 0 1001
      = Inr (replicate 1002 0, (0 + 1001) div 2 + 1, (0 + 1001 - 1) div 2)"
    by (rule partition_loop_block) auto
  then show ?thesis
    by (simp add: qs_partition_def long_add_def LONG_MAX_def LONG_MIN_def c_div2_def)
qed

lemma partition_low_first:
  "qs_partition (- 1 # replicate 1001 0) 0 1001 = Inr (- 1 # replicate 1001 0, 502, 500)"
proof -
  have "partition_loop (- 1 # replicate 1001 0) 0 0 1001
      = Inr (- 1 # replicate 1001 0, (1 + 1001) div 2 + 1, (1 + 1001 - 1) div 2)"
    by (rule partition_loop_block) (auto simp: nth_Cons')
  then show ?thesis
    by (simp add: qs_partition_def long_add_def LONG_MAX_def LONG_MIN_def c_div2_def)
qed

lemma partition_high_last:
  "qs_partition (replicate 1001 0 @ [1]) 0 1001 = Inr (replicate 1001 0 @ [1], 501, 499)"
proof -
  have "partition_loop (replicate 1001 0 @ [1]) 0 0 1001
      = Inr (replicate 1001 0 @ [1], (0 + 1000) div 2 + 1, (0 + 1000 - 1) div 2)"
    by (rule partition_loop_block) (auto simp: nth_append)
  then show ?thesis
    by (simp add: qs_partition_def long_add_def LONG_MAX_def LONG_MIN_def c_div2_def
        nth_append)
qed

text \<open>
  Claim C6 says that a part is spawned when its size exceeds the threshold \<open>T\<close>. The source
  compares \<open>r - left\<close> and \<open>right - l\<close> with \<open>T\<close>, so a part counts as big when it has more
  than \<open>T + 1\<close> elements. With this reading the claim holds for every range above the cutoff
  with \<open>right\<close> below \<open>2 ^ 30\<close>, where the partition produces \<open>l\<close> and \<open>r\<close>: if both parts
  are big, or only the left one, one task is created, for the left part \<open>(left, r)\<close>, and
  the rest of the result is that of the direct recursive call on the right part; if only
  the right part is big, one task is created, for the right part \<open>(l, right)\<close>, and the rest
  is that of the direct call on the left part; if neither is, no task is created, the result
  is that of the direct call on the left part followed by the direct call on the right
  part. With sizes compared to \<open>T\<close> itself the claim fails: see \<open>parts_above_threshold_inline\<close>.
\<close>

theorem spawn_policy:
  assumes "0 \<le> left" "right < int (length a)" "tiny < right - left" "2 * right \<le> LONG_MAX"
  shows "\<exists>a1 l r. qs_partition a left right = Inr (a1, l, r) \<and> left < l \<and> r < right \<and>
     (threshold + 1 < part_size left r \<and> threshold + 1 < part_size l right \<longrightarrow>
        (\<exists>a2 sp. quicksort_job a1 l right threshold = Inr (a2, sp) \<and>
           quicksort_job a left right threshold = Inr (a2, (left, r) # sp))) \<and>
     (threshold + 1 < part_size left r \<and> \<not> threshold + 1 < part_size l right \<longrightarrow>
        (\<exists>a2 sp. quicksort_job a1 l right threshold = Inr (a2, sp) \<and>
           quicksort_job a left right threshold = Inr (a2, (left, r) # sp))) \<and>
     (\<not> threshold + 1 < part_size left r \<and> threshold + 1 < part_size l right \<longrightarrow>
        (\<exists>a2 sp. quicksort_job a1 left r threshold = Inr (a2, sp) \<and>
           quicksort_job a left right threshold = Inr (a2, (l, right) # sp))) \<and>
     (\<not> threshold + 1 < part_size left r \<and> \<not> threshold + 1 < part_size l right \<longrightarrow>
        (\<exists>a2 sp1 a3 sp2. quicksort_job a1 left r threshold = Inr (a2, sp1) \<and>
           quicksort_job a2 l right threshold = Inr (a3, sp2) \<and>
           quicksort_job a left right threshold = Inr (a3, sp1 @ sp2)))"
proof -
  have s: "threshold + 1 < part_size lo hi \<longleftrightarrow> threshold < hi - lo" for lo hi
    by (auto simp: part_size_def)
  from spawn_cases [OF assms, of threshold] show ?thesis
    unfolding s by blast
qed

text \<open>
  The four cases of the theorem, on the three arrays above with the whole range
  \<open>0 .. 1001\<close>. The parts are \<open>0 .. 500\<close> and \<open>501 .. 1001\<close> of 501 elements each, with the
  thresholds 100 (both big) and 500 (neither); \<open>0 .. 500\<close> and \<open>502 .. 1001\<close> of 501 and 500
  elements, with the threshold 499 (only the left part big); \<open>0 .. 499\<close> and \<open>501 .. 1001\<close> of
  500 and 501 elements, with the threshold 499 (only the right part big). The part that is
  processed inline is below the cutoff and creates no task.
\<close>

theorem spawn_policy_witness:
  "(0::int) \<le> 0 \<and> 1001 < int (length (replicate 1002 (0::int))) \<and>
   1001 < int (length (- 1 # replicate 1001 (0::int))) \<and>
   1001 < int (length (replicate 1001 (0::int) @ [1])) \<and>
   tiny < 1001 - 0 \<and> 2 * 1001 \<le> LONG_MAX \<and>
   (\<exists>a2. quicksort_job (replicate 1002 0) 0 1001 100 = Inr (a2, [(0, 500)])) \<and>
   (\<exists>a2. quicksort_job (- 1 # replicate 1001 0) 0 1001 499 = Inr (a2, [(0, 500)])) \<and>
   (\<exists>a2. quicksort_job (replicate 1001 0 @ [1]) 0 1001 499 = Inr (a2, [(501, 1001)])) \<and>
   (\<exists>a3. quicksort_job (replicate 1002 0) 0 1001 500 = Inr (a3, []))"
proof -
  have h: "(0::int) \<le> 0" "tiny < 1001 - 0" "2 * 1001 \<le> LONG_MAX"
    and n: "1001 < int (length (replicate 1002 (0::int)))"
      "1001 < int (length (- 1 # replicate 1001 (0::int)))"
      "1001 < int (length (replicate 1001 (0::int) @ [1]))"
    by (simp_all add: tiny_def LONG_MAX_def)
  have small: "(1001::int) - 501 \<le> tiny" "(1001::int) - 502 \<le> tiny" "(500::int) - 0 \<le> tiny"
    "(499::int) - 0 \<le> tiny"
    by (simp_all add: tiny_def)
  have both: "\<exists>a2. quicksort_job (replicate 1002 0) 0 1001 100 = Inr (a2, [(0, 500)])"
  proof -
    from spawn_policy [OF h(1) n(1) h(2,3), of 100] partition_equal
    have "100 + 1 < part_size 0 500 \<and> 100 + 1 < part_size 501 1001 \<longrightarrow>
        (\<exists>a2 sp. quicksort_job (replicate 1002 0) 501 1001 100 = Inr (a2, sp) \<and>
           quicksort_job (replicate 1002 0) 0 1001 100 = Inr (a2, (0, 500) # sp))"
      by auto
    then obtain a2 sp where
      "quicksort_job (replicate 1002 0) 501 1001 100 = Inr (a2, sp)"
      "quicksort_job (replicate 1002 0) 0 1001 100 = Inr (a2, (0, 500) # sp)"
      by (auto simp: part_size_def)
    with small_job_no_tasks [OF small(1) this(1)] show ?thesis by blast
  qed
  have left_only: "\<exists>a2. quicksort_job (- 1 # replicate 1001 0) 0 1001 499 = Inr (a2, [(0, 500)])"
  proof -
    from spawn_policy [OF h(1) n(2) h(2,3), of 499] partition_low_first
    have "499 + 1 < part_size 0 500 \<and> \<not> 499 + 1 < part_size 502 1001 \<longrightarrow>
        (\<exists>a2 sp. quicksort_job (- 1 # replicate 1001 0) 502 1001 499 = Inr (a2, sp) \<and>
           quicksort_job (- 1 # replicate 1001 0) 0 1001 499 = Inr (a2, (0, 500) # sp))"
      by auto
    then obtain a2 sp where
      "quicksort_job (- 1 # replicate 1001 0) 502 1001 499 = Inr (a2, sp)"
      "quicksort_job (- 1 # replicate 1001 0) 0 1001 499 = Inr (a2, (0, 500) # sp)"
      by (auto simp: part_size_def)
    with small_job_no_tasks [OF small(2) this(1)] show ?thesis by blast
  qed
  have right_only:
    "\<exists>a2. quicksort_job (replicate 1001 0 @ [1]) 0 1001 499 = Inr (a2, [(501, 1001)])"
  proof -
    from spawn_policy [OF h(1) n(3) h(2,3), of 499] partition_high_last
    have "\<not> 499 + 1 < part_size 0 499 \<and> 499 + 1 < part_size 501 1001 \<longrightarrow>
        (\<exists>a2 sp. quicksort_job (replicate 1001 0 @ [1]) 0 499 499 = Inr (a2, sp) \<and>
           quicksort_job (replicate 1001 0 @ [1]) 0 1001 499 = Inr (a2, (501, 1001) # sp))"
      by auto
    then obtain a2 sp where
      "quicksort_job (replicate 1001 0 @ [1]) 0 499 499 = Inr (a2, sp)"
      "quicksort_job (replicate 1001 0 @ [1]) 0 1001 499 = Inr (a2, (501, 1001) # sp)"
      by (auto simp: part_size_def)
    with small_job_no_tasks [OF small(4) this(1)] show ?thesis by blast
  qed
  have neither: "\<exists>a3. quicksort_job (replicate 1002 0) 0 1001 500 = Inr (a3, [])"
  proof -
    from spawn_policy [OF h(1) n(1) h(2,3), of 500] partition_equal
    have "\<not> 500 + 1 < part_size 0 500 \<and> \<not> 500 + 1 < part_size 501 1001 \<longrightarrow>
        (\<exists>a2 sp1 a3 sp2. quicksort_job (replicate 1002 0) 0 500 500 = Inr (a2, sp1) \<and>
           quicksort_job a2 501 1001 500 = Inr (a3, sp2) \<and>
           quicksort_job (replicate 1002 0) 0 1001 500 = Inr (a3, sp1 @ sp2))"
      by auto
    then obtain a2 sp1 a3 sp2 where
      "quicksort_job (replicate 1002 0) 0 500 500 = Inr (a2, sp1)"
      "quicksort_job a2 501 1001 500 = Inr (a3, sp2)"
      "quicksort_job (replicate 1002 0) 0 1001 500 = Inr (a3, sp1 @ sp2)"
      by (auto simp: part_size_def)
    with small_job_no_tasks [OF small(3) this(1)] small_job_no_tasks [OF small(1) this(2)]
    show ?thesis by auto
  qed
  from h n both left_only right_only neither show ?thesis by blast
qed

text \<open>
  The claim as it is written fails on 1002 equal elements with the threshold 500. The
  partition ends with \<open>l = 501\<close> and \<open>r = 500\<close>: both parts have 501 elements, more than the
  threshold, so the claim has the left part spawned and the right part processed inline.
  But \<open>r - left\<close> and \<open>right - l\<close> are 500, not more than the threshold: both parts are
  processed inline and no task is created.
\<close>

theorem parts_above_threshold_inline:
  "qs_partition (replicate 1002 0) 0 1001 = Inr (replicate 1002 0, 501, 500) \<and>
   (500::int) < part_size 0 500 \<and> (500::int) < part_size 501 1001 \<and>
   (\<exists>a3. quicksort_job (replicate 1002 0) 0 1001 500 = Inr (a3, []))"
proof -
  have h: "(0::int) \<le> 0" "1001 < int (length (replicate 1002 (0::int)))" "tiny < 1001 - 0"
    "2 * 1001 \<le> LONG_MAX"
    by (simp_all add: tiny_def LONG_MAX_def)
  have small: "(1001::int) - 501 \<le> tiny" "(500::int) - 0 \<le> tiny"
    by (simp_all add: tiny_def)
  from spawn_cases [OF h, of 500] partition_equal
  have "\<not> 500 < 500 - (0::int) \<and> \<not> 500 < 1001 - (501::int) \<longrightarrow>
      (\<exists>a2 sp1 a3 sp2. quicksort_job (replicate 1002 0) 0 500 500 = Inr (a2, sp1) \<and>
         quicksort_job a2 501 1001 500 = Inr (a3, sp2) \<and>
         quicksort_job (replicate 1002 0) 0 1001 500 = Inr (a3, sp1 @ sp2))"
    by auto
  then obtain a2 sp1 a3 sp2 where
    "quicksort_job (replicate 1002 0) 0 500 500 = Inr (a2, sp1)"
    "quicksort_job a2 501 1001 500 = Inr (a3, sp2)"
    "quicksort_job (replicate 1002 0) 0 1001 500 = Inr (a3, sp1 @ sp2)"
    by auto
  with small_job_no_tasks [OF small(2) this(1)] small_job_no_tasks [OF small(1) this(2)]
  have "\<exists>a3. quicksort_job (replicate 1002 0) 0 1001 500 = Inr (a3, [])" by auto
  with partition_equal show ?thesis by (simp add: part_size_def)
qed

section \<open>main.cpp: the parallel sort as a whole\<close>

text \<open>
  \<^verbatim>\<open>quicksort_async\<close> (lines 114-121) creates the root task for the whole range; the
  workers of the pool then run the tasks until none is left. A configuration is the
  array with the list of the tasks created and not yet run. \<open>run_tasks\<close> runs tasks in
  the order a schedule dictates: entry \<open>k\<close> of the schedule picks the task at position
  \<open>k mod n\<close> of the \<open>n\<close> tasks present, any of them, as a worker may pop or steal any
  queued task. A task runs to its end in one step: tasks present at the same time work on
  pairwise disjoint index ranges (\<open>pdisj\<close>) and never write outside their own
  (\<open>same_outside\<close>), so the steps of two tasks commute. The run is over when no task is
  left, which is when the counter of \<^verbatim>\<open>QuicksortState\<close> returns to zero and the future
  becomes ready.
\<close>

type_synonym sort_cfg = "int list \<times> (int \<times> int) list"

definition quicksort_async :: "int list \<Rightarrow> int \<Rightarrow> int \<Rightarrow> sort_cfg" where
  "quicksort_async a left right = (a, [(left, right)])"

definition run_task :: "int \<Rightarrow> nat \<Rightarrow> sort_cfg \<Rightarrow> fault + sort_cfg" where
  "run_task threshold i c =
     (case quicksort_job (fst c) (fst (snd c ! i)) (snd (snd c ! i)) threshold of
        Inl e \<Rightarrow> Inl e
      | Inr (a', spawned) \<Rightarrow> Inr (a', spawned @ take i (snd c) @ drop (Suc i) (snd c)))"

fun run_tasks :: "int \<Rightarrow> nat list \<Rightarrow> sort_cfg \<Rightarrow> fault + sort_cfg" where
  "run_tasks threshold [] c = Inr c"
| "run_tasks threshold (k # ks) c =
     (if snd c = [] then Inr c
      else (case run_task threshold (k mod length (snd c)) c of
              Inl e \<Rightarrow> Inl e
            | Inr c' \<Rightarrow> run_tasks threshold ks c'))"

definition sort_inv :: "int list \<Rightarrow> int \<Rightarrow> int \<Rightarrow> sort_cfg \<Rightarrow> bool" where
  "sort_inv a0 left right c \<longleftrightarrow>
     same_outside a0 (fst c) left right \<and> mset (fst c) = mset a0 \<and>
     within (snd c) left right \<and> pdisj (snd c) \<and> ordered_mod (fst c) left right (snd c)"

lemma set_remove_nth:
  "i < length xs \<Longrightarrow> set xs = insert (xs ! i) (set (take i xs @ drop (Suc i) xs))"
  by (subst id_take_nth_drop [of i xs]) auto

lemma pdisj_remove_nth:
  assumes "pdisj xs" "i < length xs"
  shows "pdisj (take i xs @ drop (Suc i) xs) \<and>
         (\<forall>q \<in> set (take i xs @ drop (Suc i) xs). rng_disj (xs ! i) q)"
proof -
  have "pdisj (take i xs @ xs ! i # drop (Suc i) xs)"
    using assms id_take_nth_drop [of i xs] by simp
  then show ?thesis
    by (auto simp: pdisj_append dest: rng_disj_sym)
qed

lemma cost_remove_nth:
  "i < length xs \<Longrightarrow>
   cost xs = cost (take i xs @ drop (Suc i) xs) + (2 * nat (snd (xs ! i) - fst (xs ! i)) + 1)"
proof -
  assume "i < length xs"
  then have "cost xs = cost (take i xs @ xs ! i # drop (Suc i) xs)"
    using id_take_nth_drop [of i xs] by simp
  then show ?thesis by (simp add: cost_def)
qed

lemma rng_disj_sub:
  "rng_disj p q \<Longrightarrow> fst p \<le> fst x \<Longrightarrow> snd x \<le> snd p \<Longrightarrow> rng_disj x q"
  by (auto simp: rng_disj_def)

lemma rng_disj_no_common: "rng_disj p q \<Longrightarrow> in_rng p k \<Longrightarrow> in_rng q k \<Longrightarrow> False"
  by (auto simp: rng_disj_def in_rng_def)

lemma ordered_mod_step:
  assumes om: "ordered_mod a left right pend" and pd: "pdisj pend" and i: "i < length pend"
    and w: "left \<le> fst (pend ! i)" "snd (pend ! i) \<le> right"
    and v: "left < right \<longrightarrow> 0 \<le> left \<and> right < int (length a)"
    and so: "same_outside a a' (fst (pend ! i)) (snd (pend ! i))" and ms: "mset a' = mset a"
    and om': "ordered_mod a' (fst (pend ! i)) (snd (pend ! i)) sp"
  shows "ordered_mod a' left right (sp @ take i pend @ drop (Suc i) pend)"
  unfolding ordered_mod_def
proof (intro allI impI)
  fix u v assume uv: "left \<le> u \<and> u < v \<and> v \<le> right"
  define p where "p = pend ! i"
  define rest where "rest = take i pend @ drop (Suc i) pend"
  have val: "0 \<le> left" "right < int (length a)" using v uv by auto
  have pl: "0 \<le> fst p" "snd p < int (length a)" using w val by (auto simp: p_def)
  have disj: "\<forall>q \<in> set rest. rng_disj p q"
    using pdisj_remove_nth [OF pd i] by (simp add: rest_def p_def)
  have sets: "set pend = insert p (set rest)"
    using set_remove_nth [OF i] by (simp add: rest_def p_def)
  have cover: "a ! nat x \<le> a ! nat y \<or> (\<exists>q \<in> set rest. in_rng q x \<and> in_rng q y)"
    if "left \<le> x" "x < y" "y \<le> right" "\<not> (in_rng p x \<and> in_rng p y)" for x y
  proof -
    from om that have "a ! nat x \<le> a ! nat y \<or> (\<exists>q \<in> set pend. in_rng q x \<and> in_rng q y)"
      unfolding ordered_mod_def by blast
    with sets that(4) show ?thesis by auto
  qed
  have strict: "a ! nat x \<le> a ! nat y"
    if "left \<le> x" "x < y" "y \<le> right" "in_rng p x \<noteq> in_rng p y" for x y
  proof -
    from that have "\<not> (in_rng p x \<and> in_rng p y)" by auto
    from cover [OF that(1,2,3) this] show ?thesis
    proof
      assume "a ! nat x \<le> a ! nat y" then show ?thesis .
    next
      assume "\<exists>q \<in> set rest. in_rng q x \<and> in_rng q y"
      then obtain q where q: "q \<in> set rest" "in_rng q x" "in_rng q y" by blast
      with disj have "rng_disj p q" by blast
      with q that(4) rng_disj_no_common [of p q x] rng_disj_no_common [of p q y]
      show ?thesis by auto
    qed
  qed
  have so': "same_outside a a' (fst p) (snd p)" using so by (simp add: p_def)
  have same: "a' ! nat x = a ! nat x" if "left \<le> x" "x \<le> right" "\<not> in_rng p x" for x
    using that val by (intro same_outside_nth [OF so']) (auto simp: in_rng_def)
  show "a' ! nat u \<le> a' ! nat v \<or>
        (\<exists>q \<in> set (sp @ take i pend @ drop (Suc i) pend). in_rng q u \<and> in_rng q v)"
  proof (cases "in_rng p u")
    case pu: True
    show ?thesis
    proof (cases "in_rng p v")
      case True
      with pu uv om' have "a' ! nat u \<le> a' ! nat v \<or> (\<exists>q \<in> set sp. in_rng q u \<and> in_rng q v)"
        unfolding ordered_mod_def p_def in_rng_def by blast
      then show ?thesis by auto
    next
      case False
      with pu uv have v': "snd p < v" by (auto simp: in_rng_def)
      have "\<forall>k. fst p \<le> k \<and> k \<le> snd p \<longrightarrow> a ! nat k \<le> a ! nat v"
      proof (intro allI impI)
        fix k assume k: "fst p \<le> k \<and> k \<le> snd p"
        then have "in_rng p k" by (simp add: in_rng_def)
        with False k v' uv w show "a ! nat k \<le> a ! nat v"
          by (intro strict) (auto simp: p_def)
      qed
      from range_bound_preserved [OF so' ms pl this, of u] pu
      have "a' ! nat u \<le> a ! nat v" by (simp add: in_rng_def)
      moreover have "a' ! nat v = a ! nat v" using uv False by (intro same) auto
      ultimately show ?thesis by simp
    qed
  next
    case nu: False
    show ?thesis
    proof (cases "in_rng p v")
      case True
      with nu uv have u': "u < fst p" by (auto simp: in_rng_def)
      have "\<forall>k. fst p \<le> k \<and> k \<le> snd p \<longrightarrow> a ! nat u \<le> a ! nat k"
      proof (intro allI impI)
        fix k assume k: "fst p \<le> k \<and> k \<le> snd p"
        then have "in_rng p k" by (simp add: in_rng_def)
        with nu k u' uv w show "a ! nat u \<le> a ! nat k"
          by (intro strict) (auto simp: p_def)
      qed
      from range_bound_preserved [OF so' ms pl this, of v] True
      have "a ! nat u \<le> a' ! nat v" by (simp add: in_rng_def)
      moreover have "a' ! nat u = a ! nat u" using uv nu by (intro same) auto
      ultimately show ?thesis by simp
    next
      case False
      with nu uv have "a' ! nat u = a ! nat u" "a' ! nat v = a ! nat v"
        by (auto intro!: same)
      moreover from cover [of u v] uv nu
      have "a ! nat u \<le> a ! nat v \<or> (\<exists>q \<in> set rest. in_rng q u \<and> in_rng q v)" by auto
      ultimately show ?thesis by (auto simp: rest_def)
    qed
  qed
qed

lemma run_task_step:
  assumes valid: "left < right \<longrightarrow>
      0 \<le> left \<and> right < int (length a0) \<and> 2 * right \<le> LONG_MAX"
    and inv: "sort_inv a0 left right c" and i: "i < length (snd c)"
  shows "\<exists>c'. run_task threshold i c = Inr c' \<and> sort_inv a0 left right c' \<and>
           cost (snd c') < cost (snd c)"
proof -
  define a where "a = fst c"
  define pend where "pend = snd c"
  define p where "p = pend ! i"
  define rest where "rest = take i pend @ drop (Suc i) pend"
  from inv have I: "same_outside a0 a left right" "mset a = mset a0" "within pend left right"
    "pdisj pend" "ordered_mod a left right pend"
    by (simp_all add: sort_inv_def a_def pend_def)
  have len: "length a = length a0" using I(1) by (rule same_outside_length)
  have ip: "i < length pend" using i by (simp add: pend_def)
  then have "p \<in> set pend" by (simp add: p_def)
  with I(3) have w: "left \<le> fst p" "snd p \<le> right" by (auto simp: within_def)
  have v: "left < right \<longrightarrow> 0 \<le> left \<and> right < int (length a)" using valid len by simp
  have "fst p < snd p \<longrightarrow> 0 \<le> fst p \<and> snd p < int (length a) \<and> 2 * snd p \<le> LONG_MAX"
    using w v valid by auto
  from job_postD [OF quicksort_job_spec [OF this, of threshold]] obtain a' sp where
    j: "quicksort_job a (fst p) (snd p) threshold = Inr (a', sp)"
    "same_outside a a' (fst p) (snd p)" "mset a' = mset a" "within sp (fst p) (snd p)"
    "pdisj sp" "cost sp \<le> 2 * nat (snd p - fst p)" "ordered_mod a' (fst p) (snd p) sp"
    by blast
  have eq: "run_task threshold i c = Inr (a', sp @ rest)"
    using j(1) by (simp add: run_task_def a_def pend_def p_def rest_def)
  have so: "same_outside a0 a' left right"
    using same_outside_trans [OF I(1) j(2), of left right] w by simp
  have wr: "within rest left right"
    using I(3) set_remove_nth [OF ip] by (auto simp: within_def rest_def)
  have ws: "within sp left right"
    using within_mono [OF j(4), of left right] w by simp
  have dr: "pdisj rest" "\<forall>q \<in> set rest. rng_disj p q"
    using pdisj_remove_nth [OF I(4) ip] by (simp_all add: rest_def p_def)
  have cross: "\<forall>x \<in> set sp. \<forall>q \<in> set rest. rng_disj x q"
  proof (intro ballI)
    fix x q assume "x \<in> set sp" "q \<in> set rest"
    with j(4) dr(2) have "fst p \<le> fst x" "snd x \<le> snd p" "rng_disj p q"
      by (auto simp: within_def)
    then show "rng_disj x q" using rng_disj_sub by blast
  qed
  have pd: "pdisj (sp @ rest)"
    using j(5) dr(1) cross by (simp add: pdisj_append)
  have om: "ordered_mod a' left right (sp @ rest)"
    unfolding rest_def
    by (rule ordered_mod_step [OF I(5) I(4) ip _ _ v _ j(3)])
      (use w j(2) j(7) in \<open>simp_all add: p_def\<close>)
  have c: "cost (sp @ rest) < cost pend"
    using cost_remove_nth [OF ip] j(6) by (simp add: cost_append rest_def p_def)
  show ?thesis
    using eq so j(3) I(2) ws wr pd om c
    by (simp add: sort_inv_def within_append pend_def)
qed

lemma cost_Nil_iff: "cost pend = 0 \<longleftrightarrow> pend = []"
  by (cases pend) (simp_all add: cost_def)

lemma run_tasks_inv:
  assumes valid: "left < right \<longrightarrow>
      0 \<le> left \<and> right < int (length a0) \<and> 2 * right \<le> LONG_MAX"
  shows "sort_inv a0 left right c \<Longrightarrow>
     \<exists>c'. run_tasks threshold ks c = Inr c' \<and> sort_inv a0 left right c' \<and>
          (snd c' = [] \<or> cost (snd c') + length ks \<le> cost (snd c))"
proof (induction ks arbitrary: c)
  case Nil
  then show ?case by simp
next
  case (Cons k ks)
  show ?case
  proof (cases "snd c = []")
    case True
    with Cons.prems show ?thesis by simp
  next
    case False
    then have "k mod length (snd c) < length (snd c)" by simp
    from run_task_step [OF valid Cons.prems this, of threshold] obtain c1 where
      c1: "run_task threshold (k mod length (snd c)) c = Inr c1" "sort_inv a0 left right c1"
      "cost (snd c1) < cost (snd c)"
      by blast
    from Cons.IH [OF c1(2)] obtain c' where
      c': "run_tasks threshold ks c1 = Inr c'" "sort_inv a0 left right c'"
      "snd c' = [] \<or> cost (snd c') + length ks \<le> cost (snd c1)"
      by blast
    have "run_tasks threshold (k # ks) c = Inr c'"
      using False c1(1) c'(1) by simp
    with c'(2,3) c1(3) show ?thesis by auto
  qed
qed

lemma slice_nth_nat:
  "0 \<le> left \<Longrightarrow> left + int i \<le> right \<Longrightarrow> right < int (length a) \<Longrightarrow>
   slice a left right ! i = a ! nat (left + int i)"
  using slice_nth [of left "left + int i" right a] by simp

lemma quicksort_async_inv: "sort_inv a left right (quicksort_async a left right)"
  by (simp add: sort_inv_def quicksort_async_def same_outside_refl within_def
      ordered_mod_def in_rng_def)

lemma ordered_slice_sorted:
  assumes "0 \<le> left" "left \<le> right + 1" "right < int (length a)" "ordered_mod a left right []"
  shows "sorted (slice a left right)"
  unfolding sorted_iff_nth_mono_less
proof (intro allI impI)
  fix i j assume ij: "i < j" "j < length (slice a left right)"
  with slice_length [OF assms(1,2,3)] have b: "left + int j \<le> right" by simp
  have "slice a left right ! i = a ! nat (left + int i)"
    "slice a left right ! j = a ! nat (left + int j)"
    using ij b assms by (auto intro!: slice_nth_nat)
  moreover have "a ! nat (left + int i) \<le> a ! nat (left + int j)"
    using assms(4) ij b unfolding ordered_mod_def by simp
  ultimately show "slice a left right ! i \<le> slice a left right ! j" by simp
qed

lemma std_sort_unique:
  assumes v: "0 \<le> left" "left \<le> right + 1" "right < int (length a)"
    and so: "same_outside a a' left right" and sl: "slice a' left right = sort (slice a left right)"
  shows "std_sort a left (right + 1) = Inr a'"
proof -
  from std_sort_spec [OF v] obtain b where
    b: "std_sort a left (right + 1) = Inr b" "same_outside a b left right"
    "slice b left right = sort (slice a left right)"
    by blast
  have len: "length a' = length a" "length b = length a"
    using so b(2) by (simp_all add: same_outside_def)
  have "a' = b"
  proof (rule nth_equalityI)
    show "length a' = length b" using len by simp
  next
    fix k assume k: "k < length a'"
    show "a' ! k = b ! k"
    proof (cases "left \<le> int k \<and> int k \<le> right")
      case True
      then have "slice a' left right ! nat (int k - left) = a' ! nat (int k)"
        "slice b left right ! nat (int k - left) = b ! nat (int k)"
        using v len slice_nth [of left "int k" right a'] slice_nth [of left "int k" right b]
        by simp_all
      with sl b(3) show ?thesis by simp
    next
      case False
      then have o: "int k < left \<or> right < int k" by auto
      have k': "0 \<le> int k" "int k < int (length a)" using k len by simp_all
      from same_outside_nth [OF so k' o] same_outside_nth [OF b(2) k' o]
      show ?thesis by simp
    qed
  qed
  with b(1) show ?thesis by simp
qed

lemma job_overflow:
  assumes "tiny < right - left" "LONG_MAX < left + right"
  shows "quicksort_job a left right threshold = Inl Overflow"
proof -
  from assms(1) have "\<not> right \<le> left" "\<not> right - left \<le> tiny" by (simp_all add: tiny_def)
  moreover have "qs_partition a left right = Inl Overflow"
    using assms(2) by (simp add: qs_partition_def long_add_def)
  ultimately show ?thesis by (subst quicksort_job.simps) simp
qed







section \<open>main.cpp: spawn_task_in_pool and QuicksortState as a step machine\<close>

text \<open>
  The fork-join bookkeeping of \<^verbatim>\<open>spawn_task_in_pool\<close> (lines 39-63) sees of a task body only
  the calls of \<^verbatim>\<open>spawn_task_in_pool\<close> it makes, in order, and whether it ends by returning or
  by throwing. \<open>Job js outcome\<close> is a body that spawns the jobs \<open>js\<close> and then returns
  (\<open>None\<close>) or throws \<open>e\<close> (\<open>Some e\<close>). For \<^verbatim>\<open>quicksort_job\<close> the spawned jobs are the
  sub-ranges handed to the pool. A job is a finite tree: every body ends.
\<close>

datatype 'e job = Job "'e job list" "'e option"

text \<open>
  The shared state of \<^verbatim>\<open>std::promise<void>\<close>: not yet satisfied, satisfied by
  \<^verbatim>\<open>set_value()\<close>, or satisfied by \<^verbatim>\<open>set_exception(e)\<close>.
\<close>

datatype 'e promise = Pending | Ready | Failed 'e

text \<open>
  \<^verbatim>\<open>struct QuicksortState\<close>, lines 22-36. \<^verbatim>\<open>except_ptr\<close> is \<open>None\<close> for the null
  \<^verbatim>\<open>std::exception_ptr\<close>. The mutex \<^verbatim>\<open>except_mtx\<close> has no field: each critical section
  under it is one step of the machine below. \<^verbatim>\<open>counter\<close> is an \<^verbatim>\<open>int\<close>; it stays within
  the number of live tasks (invariant \<open>inv_count\<close> below), so it is kept as an \<open>int\<close>.
\<close>

record 'e QuicksortState =
  prom :: "'e promise"
  counter :: int
  except_ptr :: "'e option"
  except_set :: bool

definition QuicksortState_new :: "'e QuicksortState" where
  "QuicksortState_new = \<lparr>prom = Pending, counter = 0, except_ptr = None, except_set = False\<rparr>"

text \<open>
  The control points of a worker thread: those of \<^verbatim>\<open>worker_loop\<close> (ThreadPool.h lines 54-80),
  with the call \<^verbatim>\<open>task()\<close> opened up into the wrapper lambda of main.cpp lines 41-62.
  \<^item> \<open>LoopHead\<close>: about to call \<^verbatim>\<open>try_pop_from_queue(my_index)\<close>, line 58;
  \<^item> \<open>StealScan k\<close>: in the \<^verbatim>\<open>for\<close> loop of lines 64-71 with loop variable \<open>k\<close>;
  \<^item> \<open>Waiting\<close>: in \<^verbatim>\<open>wait_for\<close>, lines 75-78;
  \<^item> \<open>InJob js outcome\<close>: inside \<^verbatim>\<open>job()\<close> of main.cpp line 43, the body still has to
    spawn \<open>js\<close> and then ends with \<open>outcome\<close>;
  \<^item> \<open>InSpawn j js outcome\<close>: inside a call of \<^verbatim>\<open>spawn_task_in_pool\<close> made by the body,
    after the \<^verbatim>\<open>fetch_add\<close> of line 40 and before the \<^verbatim>\<open>push_task\<close> of line 41;
  \<^item> \<open>InPush idx j js outcome\<close>: inside that call of \<^verbatim>\<open>push_task\<close>, after it has taken
    the queue index \<open>idx\<close> (ThreadPool.h line 44) and before it locks the queue and pushes
    (lines 45-48);
  \<^item> \<open>FetchSub\<close>: past the \<^verbatim>\<open>try\<close> block, about to run \<^verbatim>\<open>fetch_sub\<close>, line 53;
  \<^item> \<open>Finalize\<close>: \<^verbatim>\<open>prev == 1\<close> was seen on line 54, about to take the lock of line 55;
  \<^item> \<open>Crashed\<close>: an exception has left the wrapper and so \<^verbatim>\<open>worker_loop\<close>, which has no
    handler. Outside the \<^verbatim>\<open>try\<close> block only lines 57 and 59 can throw: \<^verbatim>\<open>set_value\<close> and
    \<^verbatim>\<open>set_exception\<close> throw \<^verbatim>\<open>std::future_error\<close> on a promise that is already satisfied,
    and \<^verbatim>\<open>set_exception\<close> must not be given a null pointer.
\<close>

datatype 'e wpoint =
    LoopHead
  | StealScan nat
  | Waiting
  | InJob "'e job list" "'e option"
  | InSpawn "'e job" "'e job list" "'e option"
  | InPush nat "'e job" "'e job list" "'e option"
  | FetchSub
  | Finalize
  | Crashed

text \<open>
  The main thread inside \<^verbatim>\<open>quicksort_async\<close> (lines 114-121), which calls
  \<^verbatim>\<open>spawn_task_in_pool\<close> for the root job: before the \<^verbatim>\<open>fetch_add\<close> of the counter, between
  it and \<^verbatim>\<open>push_task\<close>, inside \<^verbatim>\<open>push_task\<close> with the queue index taken, and after (holding
  the future).
\<close>

datatype mpoint = MStart | MSpawn | MPush nat | MWait

text \<open>
  A configuration. The last three fields are history only, nothing reads them: \<open>caught\<close>
  lists the errors in the order in which they entered the critical section of lines 46-50,
  \<open>hits\<close> counts the \<^verbatim>\<open>fetch_sub\<close> calls that returned 1, and \<open>fired\<close> counts the calls of
  \<^verbatim>\<open>set_value\<close> and \<^verbatim>\<open>set_exception\<close> that were made.
\<close>

record 'e fj_cfg =
  fj_pool :: "'e job ThreadPool"
  fj_workers :: "'e wpoint list"
  fj_main :: mpoint
  fj_root :: "'e job"
  fj_state :: "'e QuicksortState"
  caught :: "'e list"
  hits :: nat
  fired :: nat

datatype fj_event = Main | Worker nat

fun enter :: "'e job \<Rightarrow> 'e wpoint" where
  "enter (Job spawns outcome) = InJob spawns outcome"

definition set_point :: "nat \<Rightarrow> 'e wpoint \<Rightarrow> 'e fj_cfg \<Rightarrow> 'e fj_cfg" where
  "set_point i w c = c\<lparr>fj_workers := (fj_workers c)[i := w]\<rparr>"

text \<open>
  One atomic action of worker \<open>i\<close>. The atomics are taken as sequentially consistent: every
  \<^verbatim>\<open>fetch_add\<close>, \<^verbatim>\<open>fetch_sub\<close> and critical section is one step, and steps of different
  threads interleave in any order.
  \<^item> \<open>LoopHead\<close>, \<open>StealScan\<close>, \<open>Waiting\<close>: as in \<^verbatim>\<open>worker_loop\<close>; a task that was taken is
    entered (the wrapper's \<^verbatim>\<open>try { job(); }\<close>).
  \<^item> \<open>InJob (j # js)\<close>: the body calls \<^verbatim>\<open>spawn_task_in_pool\<close>, line 40 increments the counter.
  \<^item> \<open>InSpawn\<close>: line 41 calls \<^verbatim>\<open>push_task\<close>, whose first action takes the queue index.
  \<^item> \<open>InPush\<close>: the second action of \<^verbatim>\<open>push_task\<close>, the push under the queue's lock.
  \<^item> \<open>InJob [] None\<close>: the body returns, control leaves the \<^verbatim>\<open>try\<close> block.
  \<^item> \<open>InJob [] (Some e)\<close>: the body throws, \<^verbatim>\<open>catch(...)\<close> runs lines 46-50 under the lock:
    the error is stored only if \<^verbatim>\<open>except_set\<close> is still false.
  \<^item> \<open>FetchSub\<close>: line 53 and the test of line 54.
  \<^item> \<open>Finalize\<close>: lines 55-60 under the lock.
\<close>

definition worker_step :: "nat \<Rightarrow> 'e fj_cfg \<Rightarrow> 'e fj_cfg" where
  "worker_step i c =
     (case fj_workers c ! i of
        LoopHead \<Rightarrow>
          (case try_pop_from_queue i (fj_pool c) of
             Some (t, p') \<Rightarrow> set_point i (enter t) (c\<lparr>fj_pool := p'\<rparr>)
           | None \<Rightarrow> set_point i (StealScan 0) c)
      | StealScan k \<Rightarrow>
          (if k < length (m_queues (fj_pool c)) then
             (case try_steal_from_queue
                     (steal_idx i k (length (m_queues (fj_pool c)))) (fj_pool c) of
                Some (t, p') \<Rightarrow> set_point i (enter t) (c\<lparr>fj_pool := p'\<rparr>)
              | None \<Rightarrow> set_point i (StealScan (k + 1)) c)
           else set_point i Waiting c)
      | Waiting \<Rightarrow> set_point i LoopHead c
      | InJob [] None \<Rightarrow> set_point i FetchSub c
      | InJob [] (Some e) \<Rightarrow>
          set_point i FetchSub
            (c\<lparr>fj_state :=
                 (if except_set (fj_state c) then fj_state c
                  else (fj_state c)\<lparr>except_ptr := Some e, except_set := True\<rparr>),
               caught := caught c @ [e]\<rparr>)
      | InJob (j # js) outcome \<Rightarrow>
          set_point i (InSpawn j js outcome)
            (c\<lparr>fj_state := (fj_state c)\<lparr>counter := counter (fj_state c) + 1\<rparr>\<rparr>)
      | InSpawn j js outcome \<Rightarrow>
          (case fetch_add_index (fj_pool c) of
             (idx, p') \<Rightarrow> set_point i (InPush idx j js outcome) (c\<lparr>fj_pool := p'\<rparr>))
      | InPush idx j js outcome \<Rightarrow>
          set_point i (InJob js outcome) (c\<lparr>fj_pool := push_front idx j (fj_pool c)\<rparr>)
      | FetchSub \<Rightarrow>
          (let prev = counter (fj_state c);
               c' = c\<lparr>fj_state := (fj_state c)\<lparr>counter := prev - 1\<rparr>\<rparr>
           in if prev = 1 then set_point i Finalize (c'\<lparr>hits := hits c + 1\<rparr>)
              else set_point i LoopHead c')
      | Finalize \<Rightarrow>
          (case prom (fj_state c) of
             Pending \<Rightarrow>
               (if except_set (fj_state c) then
                  (case except_ptr (fj_state c) of
                     Some e \<Rightarrow>
                       set_point i LoopHead
                         (c\<lparr>fj_state := (fj_state c)\<lparr>prom := Failed e\<rparr>, fired := fired c + 1\<rparr>)
                   | None \<Rightarrow> set_point i Crashed c)
                else
                  set_point i LoopHead
                    (c\<lparr>fj_state := (fj_state c)\<lparr>prom := Ready\<rparr>, fired := fired c + 1\<rparr>))
           | _ \<Rightarrow> set_point i Crashed c)
      | Crashed \<Rightarrow> c)"

text \<open>
  The three actions of the main thread in \<^verbatim>\<open>quicksort_async\<close>: line 40 and the two actions
  of the \<^verbatim>\<open>push_task\<close> of line 41, for the root.
\<close>

definition main_step :: "'e fj_cfg \<Rightarrow> 'e fj_cfg" where
  "main_step c =
     (case fj_main c of
        MStart \<Rightarrow> c\<lparr>fj_state := (fj_state c)\<lparr>counter := counter (fj_state c) + 1\<rparr>,
                    fj_main := MSpawn\<rparr>
      | MSpawn \<Rightarrow>
          (case fetch_add_index (fj_pool c) of
             (idx, p') \<Rightarrow> c\<lparr>fj_pool := p', fj_main := MPush idx\<rparr>)
      | MPush idx \<Rightarrow> c\<lparr>fj_pool := push_front idx (fj_root c) (fj_pool c), fj_main := MWait\<rparr>
      | MWait \<Rightarrow> c)"

text \<open>
  One step of the whole program under a schedule entry. An exception that leaves a worker
  thread ends the process (\<^verbatim>\<open>std::terminate\<close>), so nothing moves once a worker has crashed.
\<close>

definition fj_step :: "fj_event \<Rightarrow> 'e fj_cfg \<Rightarrow> 'e fj_cfg" where
  "fj_step ev c =
     (if Crashed \<in> set (fj_workers c) then c
      else (case ev of
              Main \<Rightarrow> main_step c
            | Worker i \<Rightarrow> (if i < length (fj_workers c) then worker_step i c else c)))"

fun fj_run :: "fj_event list \<Rightarrow> 'e fj_cfg \<Rightarrow> 'e fj_cfg" where
  "fj_run [] c = c"
| "fj_run (ev # evs) c = fj_run evs (fj_step ev c)"

text \<open>
  The start: a pool built by the constructor, every worker at the head of its loop, a fresh
  \<^verbatim>\<open>QuicksortState\<close> (line 115), the main thread about to spawn the root job.
\<close>

definition fj_init :: "nat \<Rightarrow> 'e job \<Rightarrow> 'e fj_cfg" where
  "fj_init n root =
     \<lparr>fj_pool = ThreadPool_new n,
      fj_workers = replicate (if n = 0 then 4 else n) LoopHead,
      fj_main = MStart,
      fj_root = root,
      fj_state = QuicksortState_new,
      caught = [],
      hits = 0,
      fired = 0\<rparr>"

subsection \<open>The pending count\<close>

text \<open>
  \<open>pending\<close> counts what the counter stands for: a job between its \<^verbatim>\<open>fetch_add\<close> and the
  push of its \<^verbatim>\<open>push_task\<close>, a queued job, and a wrapper that has not yet run its
  \<^verbatim>\<open>fetch_sub\<close>. \<open>inv_count\<close> says that the counter is exactly this number. \<open>inv_idx\<close> says
  that an index taken by a \<^verbatim>\<open>push_task\<close> under way is the index of a queue.
\<close>

fun pend_w :: "'e wpoint \<Rightarrow> nat" where
  "pend_w (InJob js outcome) = 1"
| "pend_w (InSpawn j js outcome) = 2"
| "pend_w (InPush idx j js outcome) = 2"
| "pend_w FetchSub = 1"
| "pend_w _ = 0"

fun pend_m :: "mpoint \<Rightarrow> nat" where
  "pend_m MSpawn = 1"
| "pend_m (MPush idx) = 1"
| "pend_m _ = 0"

fun idx_w :: "nat \<Rightarrow> 'e wpoint \<Rightarrow> bool" where
  "idx_w n (InPush idx j js outcome) = (idx < n)"
| "idx_w n _ = True"

fun idx_m :: "nat \<Rightarrow> mpoint \<Rightarrow> bool" where
  "idx_m n (MPush idx) = (idx < n)"
| "idx_m n _ = True"

fun fin_w :: "'e wpoint \<Rightarrow> nat" where
  "fin_w Finalize = 1"
| "fin_w _ = 0"

definition queued_jobs :: "'e fj_cfg \<Rightarrow> 'e job multiset" where
  "queued_jobs c = mset (concat (m_queues (fj_pool c)))"

definition pending :: "'e fj_cfg \<Rightarrow> nat" where
  "pending c =
     pend_m (fj_main c) + size (queued_jobs c) + sum_list (map pend_w (fj_workers c))"

definition inv_count :: "'e fj_cfg \<Rightarrow> bool" where
  "inv_count c \<longleftrightarrow>
     length (fj_workers c) = length (m_queues (fj_pool c)) \<and>
     0 < length (m_queues (fj_pool c)) \<and>
     counter (fj_state c) = int (pending c)"

definition inv_idx :: "'e fj_cfg \<Rightarrow> bool" where
  "inv_idx c \<longleftrightarrow>
     list_all (idx_w (length (m_queues (fj_pool c)))) (fj_workers c) \<and>
     idx_m (length (m_queues (fj_pool c))) (fj_main c)"

lemma sum_list_update_add:
  fixes f :: "'a \<Rightarrow> 'b::comm_monoid_add"
  shows "i < length ws \<Longrightarrow>
     sum_list (map f (ws[i := w])) + f (ws ! i) = sum_list (map f ws) + f w"
  by (induction ws arbitrary: i) (auto simp: nth_Cons' list_update_code ac_simps split: nat.splits)

lemma pend_enter [simp]: "pend_w (enter t) = 1"
  by (cases t) simp

lemma fin_enter [simp]: "fin_w (enter t) = 0"
  by (cases t) simp

lemma size_push:
  "idx < length (m_queues p) \<Longrightarrow>
   size (mset (concat (m_queues (push_front idx t p)))) = Suc (size (mset (concat (m_queues p))))"
  by (simp only: queued_push_front size_add_mset)

lemma idx_enter [simp]: "idx_w n (enter t)"
  by (cases t) simp

lemma fetch_add_index_cases:
  assumes "0 < length (m_queues p)"
  obtains idx p' where "fetch_add_index p = (idx, p')" "m_queues p' = m_queues p"
    "idx < length (m_queues p)"
  using assms by (simp add: fetch_add_index_def)

lemma main_step_count:
  assumes "inv_count c" "inv_idx c"
  shows "inv_count (main_step c)"
proof (cases "fj_main c")
  case MStart
  with assms show ?thesis
    by (simp add: inv_count_def main_step_def pending_def queued_jobs_def)
next
  case MSpawn
  from assms(1) have n: "0 < length (m_queues (fj_pool c))" by (simp add: inv_count_def)
  from n obtain idx p' where f: "fetch_add_index (fj_pool c) = (idx, p')"
    "m_queues p' = m_queues (fj_pool c)" "idx < length (m_queues (fj_pool c))"
    by (rule fetch_add_index_cases)
  with MSpawn assms show ?thesis
    by (simp add: inv_count_def main_step_def pending_def queued_jobs_def)
next
  case (MPush idx)
  with assms(2) have "idx < length (m_queues (fj_pool c))" by (simp add: inv_idx_def)
  from size_push [OF this, of "fj_root c"] MPush assms(1) show ?thesis
    by (simp add: inv_count_def main_step_def pending_def queued_jobs_def del: size_mset)
next
  case MWait
  with assms show ?thesis
    by (simp add: inv_count_def main_step_def pending_def queued_jobs_def)
qed

lemma main_step_idx:
  assumes "inv_count c" "inv_idx c"
  shows "inv_idx (main_step c)"
proof (cases "fj_main c")
  case MSpawn
  from assms(1) have n: "0 < length (m_queues (fj_pool c))" by (simp add: inv_count_def)
  from n obtain idx p' where f: "fetch_add_index (fj_pool c) = (idx, p')"
    "m_queues p' = m_queues (fj_pool c)" "idx < length (m_queues (fj_pool c))"
    by (rule fetch_add_index_cases)
  with MSpawn assms show ?thesis
    by (simp add: inv_idx_def main_step_def)
qed (use assms in \<open>simp_all add: inv_idx_def main_step_def\<close>)

lemma set_point_simps [simp]:
  "fj_workers (set_point i w c) = (fj_workers c)[i := w]"
  "fj_pool (set_point i w c) = fj_pool c"
  "fj_main (set_point i w c) = fj_main c"
  "fj_root (set_point i w c) = fj_root c"
  "fj_state (set_point i w c) = fj_state c"
  "caught (set_point i w c) = caught c"
  "hits (set_point i w c) = hits c"
  "fired (set_point i w c) = fired c"
  by (simp_all add: set_point_def)

lemma worker_step_count:
  assumes "inv_count c" "i < length (fj_workers c)" and idx: "inv_idx c"
  shows "inv_count (worker_step i c)"
proof -
  from assms have iq: "i < length (m_queues (fj_pool c))" and n: "0 < length (m_queues (fj_pool c))"
    by (simp_all add: inv_count_def)
  have sq: "steal_idx i k (length (m_queues (fj_pool c))) < length (m_queues (fj_pool c))" for k
    using n by (simp add: steal_idx_def)
  note upd = sum_list_update_add [OF assms(2), of pend_w]
  show ?thesis
  proof (cases "fj_workers c ! i")
    case LoopHead
    show ?thesis
    proof (cases "try_pop_from_queue i (fj_pool c)")
      case None
      with LoopHead assms upd [of "StealScan 0"] show ?thesis
        by (simp add: worker_step_def inv_count_def pending_def queued_jobs_def)
    next
      case (Some a)
      obtain t p' where a: "a = (t, p')" by (cases a)
      from queued_pop [OF Some [unfolded a] iq] LoopHead Some a assms upd [of "enter t"]
      show ?thesis
        by (simp add: worker_step_def inv_count_def pending_def queued_jobs_def)
    qed
  next
    case (StealScan k)
    show ?thesis
    proof (cases "k < length (m_queues (fj_pool c))")
      case False
      with StealScan assms upd [of Waiting] show ?thesis
        by (simp add: worker_step_def inv_count_def pending_def queued_jobs_def)
    next
      case True
      show ?thesis
      proof (cases "try_steal_from_queue (steal_idx i k (length (m_queues (fj_pool c))))
          (fj_pool c)")
        case None
        with True StealScan assms upd [of "StealScan (k + 1)"] show ?thesis
          by (simp add: worker_step_def inv_count_def pending_def queued_jobs_def)
      next
        case (Some a)
        obtain t p' where a: "a = (t, p')" by (cases a)
        from queued_steal [OF Some [unfolded a] sq] True StealScan Some a assms upd [of "enter t"]
        show ?thesis
          by (simp add: worker_step_def inv_count_def pending_def queued_jobs_def)
      qed
    qed
  next
    case Waiting
    with assms upd [of LoopHead] show ?thesis
      by (simp add: worker_step_def inv_count_def pending_def queued_jobs_def)
  next
    case (InJob js outcome)
    show ?thesis
    proof (cases js)
      case Nil
      with InJob assms upd [of FetchSub] show ?thesis
        by (cases outcome)
          (simp_all add: worker_step_def inv_count_def pending_def queued_jobs_def)
    next
      case (Cons j js')
      with InJob assms upd [of "InSpawn j js' outcome"] show ?thesis
        by (simp add: worker_step_def inv_count_def pending_def queued_jobs_def)
    qed
  next
    case (InSpawn j js outcome)
    from n obtain k p' where f: "fetch_add_index (fj_pool c) = (k, p')"
      "m_queues p' = m_queues (fj_pool c)" "k < length (m_queues (fj_pool c))"
      by (rule fetch_add_index_cases)
    with InSpawn assms(1,2) upd [of "InPush k j js outcome"] show ?thesis
      by (simp add: worker_step_def inv_count_def pending_def queued_jobs_def)
  next
    case (InPush k j js outcome)
    with idx assms(2) have "k < length (m_queues (fj_pool c))"
      by (auto simp: inv_idx_def list_all_length)
    from size_push [OF this, of j] InPush assms(1,2) upd [of "InJob js outcome"] show ?thesis
      by (simp add: worker_step_def inv_count_def pending_def queued_jobs_def
          del: size_mset)
  next
    case FetchSub
    with assms upd [of Finalize] upd [of LoopHead] show ?thesis
      by (simp add: worker_step_def inv_count_def pending_def queued_jobs_def Let_def)
  next
    case Finalize
    with assms upd [of LoopHead] upd [of Crashed] show ?thesis
      by (simp add: worker_step_def inv_count_def pending_def queued_jobs_def
          split: promise.splits option.splits)
  next
    case Crashed
    with assms show ?thesis by (simp add: worker_step_def)
  qed
qed

lemma queues_length_worker_step [simp]:
  "length (m_queues (fj_pool (worker_step i c))) = length (m_queues (fj_pool c))"
proof -
  have pop: "length (m_queues p') = length (m_queues p)"
    if "try_pop_from_queue k p = Some (t, p')" for k t and p p' :: "'a job ThreadPool"
    using that by (auto simp: try_pop_from_queue_def split: list.splits)
  have steal: "length (m_queues p') = length (m_queues p)"
    if "try_steal_from_queue k p = Some (t, p')" for k t and p p' :: "'a job ThreadPool"
    using that by (auto simp: try_steal_from_queue_def split: if_splits)
  show ?thesis
  proof (cases "fj_workers c ! i")
    case LoopHead
    then show ?thesis
      by (auto simp: worker_step_def split: option.splits dest: pop)
  next
    case (StealScan k)
    then show ?thesis
      by (auto simp: worker_step_def split: option.splits dest: steal)
  next
    case (InJob js outcome)
    then show ?thesis
      by (cases js; cases outcome) (simp_all add: worker_step_def)
  next
    case (InSpawn j js outcome)
    then show ?thesis
      by (simp add: worker_step_def fetch_add_index_def)
  next
    case Finalize
    then show ?thesis
      by (simp add: worker_step_def split: promise.splits option.splits)
  next
    case Waiting
    then show ?thesis by (simp add: worker_step_def)
  next
    case (InPush k j js outcome)
    then show ?thesis by (simp add: worker_step_def)
  next
    case FetchSub
    then show ?thesis by (simp add: worker_step_def Let_def)
  next
    case Crashed
    then show ?thesis by (simp add: worker_step_def)
  qed
qed

lemma list_all_update: "list_all P ws \<Longrightarrow> P w \<Longrightarrow> list_all P (ws[i := w])"
  using set_update_subset_insert [of ws i w] by (auto simp: list_all_iff)

lemma worker_step_idx:
  assumes "inv_count c" "inv_idx c" "i < length (fj_workers c)"
  shows "inv_idx (worker_step i c)"
proof -
  let ?n = "length (m_queues (fj_pool c))"
  from assms(1) have n: "0 < ?n" by (simp add: inv_count_def)
  from assms(2) have ws: "list_all (idx_w ?n) (fj_workers c)" and m: "idx_m ?n (fj_main c)"
    by (simp_all add: inv_idx_def)
  have "\<exists>w. idx_w ?n w \<and> fj_workers (worker_step i c) = (fj_workers c)[i := w]"
  proof (cases "fj_workers c ! i")
    case (InSpawn j js outcome)
    from n obtain k p' where f: "fetch_add_index (fj_pool c) = (k, p')"
      "m_queues p' = m_queues (fj_pool c)" "k < ?n"
      by (rule fetch_add_index_cases)
    with InSpawn show ?thesis
      by (intro exI [of _ "InPush k j js outcome"]) (simp add: worker_step_def)
  next
    case Crashed
    then have "fj_workers (worker_step i c) = fj_workers c"
      by (simp add: worker_step_def)
    moreover have "(fj_workers c)[i := Crashed] = fj_workers c"
      using Crashed by (metis list_update_id)
    ultimately show ?thesis
      by (intro exI [of _ Crashed]) simp
  next
    case LoopHead
    show ?thesis
    proof (cases "try_pop_from_queue i (fj_pool c)")
      case None
      with LoopHead show ?thesis
        by (intro exI [of _ "StealScan 0"]) (simp add: worker_step_def)
    next
      case (Some a)
      with LoopHead show ?thesis
        by (intro exI [of _ "enter (fst a)"]) (simp add: worker_step_def split: prod.splits)
    qed
  next
    case (StealScan k)
    show ?thesis
    proof (cases "k < length (m_queues (fj_pool c))")
      case False
      with StealScan show ?thesis
        by (intro exI [of _ Waiting]) (simp add: worker_step_def)
    next
      case True
      show ?thesis
      proof (cases "try_steal_from_queue (steal_idx i k (length (m_queues (fj_pool c))))
          (fj_pool c)")
        case None
        with True StealScan show ?thesis
          by (intro exI [of _ "StealScan (k + 1)"]) (simp add: worker_step_def)
      next
        case (Some a)
        with True StealScan show ?thesis
          by (intro exI [of _ "enter (fst a)"]) (simp add: worker_step_def split: prod.splits)
      qed
    qed
  next
    case Waiting
    then show ?thesis by (intro exI [of _ LoopHead]) (simp add: worker_step_def)
  next
    case (InJob js outcome)
    show ?thesis
    proof (cases js)
      case Nil
      with InJob show ?thesis
        by (intro exI [of _ FetchSub]) (cases outcome; simp add: worker_step_def)
    next
      case (Cons j js')
      with InJob show ?thesis
        by (intro exI [of _ "InSpawn j js' outcome"]) (simp add: worker_step_def)
    qed
  next
    case (InPush k j js outcome)
    then show ?thesis by (intro exI [of _ "InJob js outcome"]) (simp add: worker_step_def)
  next
    case FetchSub
    then show ?thesis
      by (intro exI [of _ "if counter (fj_state c) = 1 then Finalize else LoopHead"])
        (simp add: worker_step_def Let_def)
  next
    case Finalize
    then show ?thesis
      by (intro exI [of _ "fj_workers (worker_step i c) ! i"])
        (use assms(3) in \<open>simp add: worker_step_def split: promise.splits option.splits\<close>)
  qed
  then obtain w where w: "idx_w ?n w" "fj_workers (worker_step i c) = (fj_workers c)[i := w]"
    by blast
  have "fj_main (worker_step i c) = fj_main c"
    by (simp add: worker_step_def Let_def
        split: wpoint.splits option.splits list.splits promise.splits prod.splits)
  with w m list_all_update [OF ws w(1), of i] show ?thesis
    by (simp add: inv_idx_def)
qed

subsection \<open>The completion signal\<close>

text \<open>
  \<open>inv_fire\<close>: no worker has crashed; every \<^verbatim>\<open>fetch_sub\<close> that returned 1 has either set the
  promise or is about to; once the root is counted, either the counter is positive and no
  \<^verbatim>\<open>fetch_sub\<close> has returned 1, or it is not and exactly one has.
\<close>

definition inv_fire :: "'e fj_cfg \<Rightarrow> bool" where
  "inv_fire c \<longleftrightarrow>
     Crashed \<notin> set (fj_workers c) \<and>
     hits c = fired c + sum_list (map fin_w (fj_workers c)) \<and>
     (fj_main c = MStart \<longrightarrow> hits c = 0 \<and> counter (fj_state c) = 0) \<and>
     (fj_main c \<noteq> MStart \<longrightarrow> hits c + (if 0 < counter (fj_state c) then 1 else 0) = 1) \<and>
     (prom (fj_state c) = Pending \<longleftrightarrow> fired c = 0) \<and>
     (except_set (fj_state c) \<longrightarrow> except_ptr (fj_state c) \<noteq> None)"

lemma not_crashed_update:
  "Crashed \<notin> set ws \<Longrightarrow> w \<noteq> Crashed \<Longrightarrow> Crashed \<notin> set (ws[i := w])"
  using set_update_subset_insert [of ws i w] by auto

lemma enter_not_crashed [simp]: "enter t \<noteq> Crashed"
  by (cases t) simp

lemma main_step_fire: "inv_count c \<Longrightarrow> inv_fire c \<Longrightarrow> inv_fire (main_step c)"
  by (cases "fj_main c")
    (auto simp: inv_fire_def inv_count_def main_step_def case_prod_beta)

lemma inv_fire_move:
  assumes inv: "inv_fire c" and i: "i < length (fj_workers c)"
    and w: "fin_w (fj_workers c ! i) = 0" "fin_w w = 0" "w \<noteq> Crashed"
    and c': "fj_workers c' = (fj_workers c)[i := w]" "hits c' = hits c" "fired c' = fired c"
      "fj_main c' = fj_main c" "prom (fj_state c') = prom (fj_state c)"
      "except_set (fj_state c') \<longrightarrow> except_ptr (fj_state c') \<noteq> None"
    and cnt: "counter (fj_state c') = counter (fj_state c) \<or>
      (0 < counter (fj_state c) \<and> 0 < counter (fj_state c'))"
  shows "inv_fire c'"
proof -
  from sum_list_update_add [OF i, of fin_w w] w
  have s: "sum_list (map fin_w (fj_workers c')) = sum_list (map fin_w (fj_workers c))"
    by (simp add: c'(1))
  from inv have nc: "Crashed \<notin> set (fj_workers c)" by (simp add: inv_fire_def)
  have nc': "Crashed \<notin> set (fj_workers c')"
    unfolding c'(1) by (rule not_crashed_update [OF nc w(3)])
  from inv have a: "hits c = fired c + sum_list (map fin_w (fj_workers c))"
    "fj_main c = MStart \<longrightarrow> hits c = 0 \<and> counter (fj_state c) = 0"
    "fj_main c \<noteq> MStart \<longrightarrow> hits c + (if 0 < counter (fj_state c) then 1 else 0) = 1"
    "prom (fj_state c) = Pending \<longleftrightarrow> fired c = 0"
    unfolding inv_fire_def by blast+
  from cnt a(2) have b: "fj_main c = MStart \<longrightarrow> counter (fj_state c') = 0" by auto
  from cnt a(3) have d: "fj_main c \<noteq> MStart \<longrightarrow>
      hits c + (if 0 < counter (fj_state c') then 1 else 0) = 1"
    by auto
  show ?thesis
    unfolding inv_fire_def c'(2,3,4,5) s
    using nc' a b d c'(6) by blast
qed

lemma fin_le_sum: "i < length ws \<Longrightarrow> fin_w (ws ! i) \<le> sum_list (map fin_w ws)"
  using sum_list_update_add [of i ws fin_w LoopHead] by simp

lemma pend_le_sum: "i < length ws \<Longrightarrow> pend_w (ws ! i) \<le> sum_list (map pend_w ws)"
  using sum_list_update_add [of i ws pend_w LoopHead] by simp

lemma worker_step_fire:
  assumes cnt: "inv_count c" and inv: "inv_fire c" and i: "i < length (fj_workers c)"
  shows "inv_fire (worker_step i c)"
proof -
  note upd = sum_list_update_add [OF i, of fin_w]
  from inv have nc: "Crashed \<notin> set (fj_workers c)" by (simp add: inv_fire_def)
  note ncu = not_crashed_update [OF nc, of _ i]
  from inv have ep: "except_set (fj_state c) \<longrightarrow> except_ptr (fj_state c) \<noteq> None"
    unfolding inv_fire_def by blast
  from cnt have cp: "counter (fj_state c) = int (pending c)" by (simp add: inv_count_def)
  have ge: "int (pend_w (fj_workers c ! i)) \<le> counter (fj_state c)"
    using pend_le_sum [OF i] cp by (simp add: pending_def)
  note mv = inv_fire_move [OF inv i]
  show ?thesis
  proof (cases "fj_workers c ! i")
    case LoopHead
    show ?thesis
    proof (cases "try_pop_from_queue i (fj_pool c)")
      case None
      with LoopHead ep show ?thesis
        by (intro mv [of "StealScan 0"]) (simp_all add: worker_step_def)
    next
      case (Some a)
      obtain t p' where a: "a = (t, p')" by (cases a)
      with Some LoopHead ep show ?thesis
        by (intro mv [of "enter t"]) (simp_all add: worker_step_def)
    qed
  next
    case (StealScan k)
    show ?thesis
    proof (cases "k < length (m_queues (fj_pool c))")
      case False
      with StealScan ep show ?thesis
        by (intro mv [of Waiting]) (simp_all add: worker_step_def)
    next
      case True
      show ?thesis
      proof (cases "try_steal_from_queue (steal_idx i k (length (m_queues (fj_pool c))))
          (fj_pool c)")
        case None
        with True StealScan ep show ?thesis
          by (intro mv [of "StealScan (k + 1)"]) (simp_all add: worker_step_def)
      next
        case (Some a)
        obtain t p' where a: "a = (t, p')" by (cases a)
        with Some True StealScan ep show ?thesis
          by (intro mv [of "enter t"]) (simp_all add: worker_step_def)
      qed
    qed
  next
    case Waiting
    with ep show ?thesis
      by (intro mv [of LoopHead]) (simp_all add: worker_step_def)
  next
    case (InJob js outcome)
    with ge have c1: "1 \<le> counter (fj_state c)" by simp
    show ?thesis
    proof (cases js)
      case Nil
      with InJob ep show ?thesis
        by (cases outcome; intro mv [of FetchSub]) (simp_all add: worker_step_def)
    next
      case (Cons j js')
      with InJob ep c1 show ?thesis
        by (intro mv [of "InSpawn j js' outcome"]) (simp_all add: worker_step_def)
    qed
  next
    case (InSpawn j js outcome)
    with ep show ?thesis
      by (intro mv [of "InPush (fst (fetch_add_index (fj_pool c))) j js outcome"])
        (simp_all add: worker_step_def case_prod_beta)
  next
    case (InPush k j js outcome)
    with ep show ?thesis
      by (intro mv [of "InJob js outcome"]) (simp_all add: worker_step_def)
  next
    case FetchSub
    with ge have c1: "1 \<le> counter (fj_state c)" by simp
    show ?thesis
    proof (cases "counter (fj_state c) = 1")
      case False
      with c1 FetchSub ep show ?thesis
        by (intro mv [of LoopHead]) (simp_all add: worker_step_def Let_def)
    next
      case True
      from inv True have a: "hits c = fired c + sum_list (map fin_w (fj_workers c))"
        "fj_main c \<noteq> MStart" "hits c = 0" "prom (fj_state c) = Pending \<longleftrightarrow> fired c = 0"
        unfolding inv_fire_def by auto
      from FetchSub upd [of Finalize]
      have s: "sum_list (map fin_w ((fj_workers c)[i := Finalize]))
          = Suc (sum_list (map fin_w (fj_workers c)))"
        by simp
      from True FetchSub have "worker_step i c = set_point i Finalize
          (c\<lparr>fj_state := (fj_state c)\<lparr>counter := 0\<rparr>, hits := hits c + 1\<rparr>)"
        by (simp add: worker_step_def Let_def)
      with a s ep ncu [of Finalize] show ?thesis
        by (simp add: inv_fire_def)
    qed
  next
    case Finalize
    with upd [of LoopHead] have s: "sum_list (map fin_w (fj_workers c))
        = Suc (sum_list (map fin_w ((fj_workers c)[i := LoopHead])))"
      by simp
    from inv have a: "hits c = fired c + sum_list (map fin_w (fj_workers c))"
      "fj_main c = MStart \<longrightarrow> hits c = 0 \<and> counter (fj_state c) = 0"
      "fj_main c \<noteq> MStart \<longrightarrow> hits c + (if 0 < counter (fj_state c) then 1 else 0) = 1"
      "prom (fj_state c) = Pending \<longleftrightarrow> fired c = 0"
      unfolding inv_fire_def by blast+
    from a(1) s have hp: "0 < hits c" by arith
    with a(2) have ms: "fj_main c \<noteq> MStart" by auto
    with a(3) hp have h12: "hits c = 1" "\<not> 0 < counter (fj_state c)"
      by (auto split: if_splits)
    with a(1) s have f0: "fired c = 0"
      "sum_list (map fin_w ((fj_workers c)[i := LoopHead])) = 0"
      by arith+
    with a(4) have pp: "prom (fj_state c) = Pending" by simp
    note h = h12 f0 ms pp
    show ?thesis
    proof (cases "except_set (fj_state c)")
      case False
      with Finalize h have "worker_step i c = set_point i LoopHead
          (c\<lparr>fj_state := (fj_state c)\<lparr>prom := Ready\<rparr>, fired := fired c + 1\<rparr>)"
        by (simp add: worker_step_def)
      with h False ncu [of LoopHead] show ?thesis
        by (simp add: inv_fire_def)
    next
      case True
      with ep obtain e where e: "except_ptr (fj_state c) = Some e" by auto
      with True Finalize h have "worker_step i c = set_point i LoopHead
          (c\<lparr>fj_state := (fj_state c)\<lparr>prom := Failed e\<rparr>, fired := fired c + 1\<rparr>)"
        by (simp add: worker_step_def)
      with h True e ncu [of LoopHead] show ?thesis
        by (simp add: inv_fire_def)
    qed
  next
    case Crashed
    with inv show ?thesis by (simp add: worker_step_def)
  qed
qed

subsection \<open>The errors of a task tree\<close>

text \<open>
  \<open>errs\<close> collects the errors that the bodies of a task tree throw; \<open>errs_left\<close> those of the
  bodies that have not yet ended. \<open>slot_ok\<close> relates the error slot and the promise to the
  list of the errors caught so far.
\<close>

fun thrown :: "'e option \<Rightarrow> 'e multiset" where
  "thrown None = {#}"
| "thrown (Some e) = {#e#}"

primrec errs :: "'e job \<Rightarrow> 'e multiset" where
  "errs (Job js outcome) = sum_list (map errs js) + thrown outcome"

fun errs_w :: "'e wpoint \<Rightarrow> 'e multiset" where
  "errs_w (InJob js outcome) = sum_list (map errs js) + thrown outcome"
| "errs_w (InSpawn j js outcome) = errs j + sum_list (map errs js) + thrown outcome"
| "errs_w (InPush idx j js outcome) = errs j + sum_list (map errs js) + thrown outcome"
| "errs_w _ = {#}"

definition errs_main :: "'e fj_cfg \<Rightarrow> 'e multiset" where
  "errs_main c = (if fj_main c = MWait then {#} else errs (fj_root c))"

definition errs_left :: "'e fj_cfg \<Rightarrow> 'e multiset" where
  "errs_left c =
     errs_main c + sum_mset (image_mset errs (queued_jobs c))
     + sum_list (map errs_w (fj_workers c))"

definition slot_ok :: "'e fj_cfg \<Rightarrow> bool" where
  "slot_ok c \<longleftrightarrow>
     (except_set (fj_state c) \<longleftrightarrow> caught c \<noteq> []) \<and>
     except_ptr (fj_state c) = (case caught c of [] \<Rightarrow> None | e # es \<Rightarrow> Some e) \<and>
     (prom (fj_state c) = Ready \<longrightarrow> caught c = []) \<and>
     (\<forall>e. prom (fj_state c) = Failed e \<longrightarrow> caught c \<noteq> [] \<and> e = hd (caught c))"

definition inv_err :: "'e fj_cfg \<Rightarrow> bool" where
  "inv_err c \<longleftrightarrow> slot_ok c \<and> mset (caught c) + errs_left c = errs (fj_root c)"

lemma errs_enter [simp]: "errs_w (enter t) = errs t"
  by (cases t) simp

lemma errs_main_worker_step [simp]: "errs_main (worker_step i c) = errs_main c"
  by (simp add: errs_main_def worker_step_def Let_def case_prod_beta
      split: wpoint.splits option.splits list.splits promise.splits)

lemma root_worker_step [simp]: "fj_root (worker_step i c) = fj_root c"
  by (simp add: worker_step_def Let_def case_prod_beta
      split: wpoint.splits option.splits list.splits promise.splits)

lemma worker_step_errs:
  assumes cnt: "inv_count c" and i: "i < length (fj_workers c)" and idx: "inv_idx c"
  shows "mset (caught (worker_step i c)) +
       (errs_main c + sum_mset (image_mset errs (queued_jobs (worker_step i c))) +
        sum_list (map errs_w (fj_workers (worker_step i c)))) =
       mset (caught c) + (errs_main c + sum_mset (image_mset errs (queued_jobs c)) +
        sum_list (map errs_w (fj_workers c)))"
proof -
  from cnt i have iq: "i < length (m_queues (fj_pool c))" and n: "0 < length (m_queues (fj_pool c))"
    by (simp_all add: inv_count_def)
  have sq: "steal_idx i k (length (m_queues (fj_pool c))) < length (m_queues (fj_pool c))" for k
    using n by (simp add: steal_idx_def)
  note upd = sum_list_update_add [OF i, of errs_w]
  show ?thesis
  proof (cases "fj_workers c ! i")
    case LoopHead
    show ?thesis
    proof (cases "try_pop_from_queue i (fj_pool c)")
      case None
      with LoopHead upd [of "StealScan 0"] show ?thesis
        by (simp add: worker_step_def queued_jobs_def)
    next
      case (Some a)
      obtain t p' where a: "a = (t, p')" by (cases a)
      from queued_pop [OF Some [unfolded a] iq] LoopHead Some a upd [of "enter t"]
      show ?thesis
        by (simp add: worker_step_def queued_jobs_def ac_simps)
    qed
  next
    case (StealScan k)
    show ?thesis
    proof (cases "k < length (m_queues (fj_pool c))")
      case False
      with StealScan upd [of Waiting] show ?thesis
        by (simp add: worker_step_def queued_jobs_def)
    next
      case True
      show ?thesis
      proof (cases "try_steal_from_queue (steal_idx i k (length (m_queues (fj_pool c))))
          (fj_pool c)")
        case None
        with True StealScan upd [of "StealScan (k + 1)"] show ?thesis
          by (simp add: worker_step_def queued_jobs_def)
      next
        case (Some a)
        obtain t p' where a: "a = (t, p')" by (cases a)
        from queued_steal [OF Some [unfolded a] sq] True StealScan Some a upd [of "enter t"]
        show ?thesis
          by (simp add: worker_step_def queued_jobs_def ac_simps)
      qed
    qed
  next
    case Waiting
    with upd [of LoopHead] show ?thesis
      by (simp add: worker_step_def queued_jobs_def)
  next
    case (InJob js outcome)
    show ?thesis
    proof (cases js)
      case (Cons j js')
      with InJob upd [of "InSpawn j js' outcome"] show ?thesis
        by (simp add: worker_step_def queued_jobs_def ac_simps)
    next
      case Nil
      with InJob upd [of FetchSub] show ?thesis
        by (cases outcome) (simp_all add: worker_step_def queued_jobs_def)
    qed
  next
    case (InSpawn j js outcome)
    with upd [of "InPush (fst (fetch_add_index (fj_pool c))) j js outcome"]
    show ?thesis
      by (simp add: worker_step_def queued_jobs_def case_prod_beta)
  next
    case (InPush k j js outcome)
    with idx i have "k < length (m_queues (fj_pool c))"
      by (auto simp: inv_idx_def list_all_length)
    from queued_push_front [OF this, of j] InPush upd [of "InJob js outcome"]
    show ?thesis
      by (simp add: worker_step_def queued_jobs_def ac_simps)
  next
    case FetchSub
    with upd [of Finalize] upd [of LoopHead]
    show ?thesis
      by (simp add: worker_step_def queued_jobs_def Let_def)
  next
    case Finalize
    with upd [of LoopHead] upd [of Crashed]
    show ?thesis
      by (simp add: worker_step_def queued_jobs_def split: promise.splits option.splits)
  next
    case Crashed
    then show ?thesis
      by (simp add: worker_step_def)
  qed
qed

lemma worker_step_errs_left:
  assumes "inv_count c" "i < length (fj_workers c)" "inv_idx c"
  shows "mset (caught (worker_step i c)) + errs_left (worker_step i c)
       = mset (caught c) + errs_left c"
  using worker_step_errs [OF assms] by (simp add: errs_left_def)

lemma worker_step_slot:
  assumes cnt: "inv_count c" and fire: "inv_fire c" and inv: "slot_ok c"
    and i: "i < length (fj_workers c)"
  shows "slot_ok (worker_step i c)"
proof -
  note updp = sum_list_update_add [OF i, of pend_w LoopHead]
  from cnt have cp: "counter (fj_state c) = int (pending c)" by (simp add: inv_count_def)
  have ge: "int (pend_w (fj_workers c ! i)) \<le> counter (fj_state c)"
    using updp cp by (simp add: pending_def)
  have busy: "prom (fj_state c) = Pending" if "1 \<le> counter (fj_state c)"
    using that fire by (auto simp: inv_fire_def split: if_splits)
  show ?thesis
  proof (cases "fj_workers c ! i")
    case (InJob js outcome)
    with ge have "1 \<le> counter (fj_state c)" by simp
    note p = busy [OF this]
    show ?thesis
    proof (cases js)
      case (Cons j js')
      with InJob inv show ?thesis by (simp add: worker_step_def slot_ok_def)
    next
      case Nil
      show ?thesis
      proof (cases outcome)
        case None
        with Nil InJob inv show ?thesis by (simp add: worker_step_def slot_ok_def)
      next
        case (Some e)
        with Nil InJob inv p show ?thesis
          by (cases "caught c") (simp_all add: worker_step_def slot_ok_def)
      qed
    qed
  next
    case Finalize
    with inv show ?thesis
      by (cases "caught c")
        (auto simp: worker_step_def slot_ok_def split: promise.splits option.splits)
  qed (use inv in \<open>auto simp: worker_step_def slot_ok_def Let_def case_prod_beta
      split: option.splits\<close>)
qed

lemma main_step_err:
  assumes "inv_count c" "inv_idx c" "inv_err c"
  shows "inv_err (main_step c)"
proof (cases "fj_main c")
  case (MPush idx)
  with assms(2) have "idx < length (m_queues (fj_pool c))" by (simp add: inv_idx_def)
  note q = queued_push_front [OF this, of "fj_root c"]
  from assms(3) have sl: "slot_ok c" and acc: "mset (caught c) + errs_left c = errs (fj_root c)"
    by (simp_all add: inv_err_def)
  from sl MPush have sl': "slot_ok (main_step c)"
    by (simp add: slot_ok_def main_step_def)
  have "errs_left (main_step c) = errs_left c"
    using MPush q by (simp add: main_step_def errs_left_def errs_main_def queued_jobs_def)
  with acc MPush have "mset (caught (main_step c)) + errs_left (main_step c)
      = errs (fj_root (main_step c))"
    by (simp add: main_step_def)
  with sl' show ?thesis by (simp add: inv_err_def)
qed (use assms in \<open>auto simp: inv_err_def slot_ok_def inv_count_def main_step_def
    errs_left_def errs_main_def queued_jobs_def case_prod_beta\<close>)

definition fj_inv :: "'e fj_cfg \<Rightarrow> bool" where
  "fj_inv c \<longleftrightarrow> inv_count c \<and> inv_idx c \<and> inv_fire c \<and> inv_err c"

lemma fj_step_inv: "fj_inv c \<Longrightarrow> fj_inv (fj_step ev c)"
proof (cases ev)
  case Main
  assume "fj_inv c"
  with Main show ?thesis
    by (auto simp: fj_inv_def fj_step_def main_step_count main_step_idx main_step_fire
        main_step_err)
next
  case (Worker i)
  assume a: "fj_inv c"
  show ?thesis
  proof (cases "i < length (fj_workers c) \<and> Crashed \<notin> set (fj_workers c)")
    case False
    with a Worker show ?thesis by (auto simp: fj_step_def)
  next
    case True
    with a have "inv_count (worker_step i c)" "inv_idx (worker_step i c)"
      "inv_fire (worker_step i c)" "slot_ok (worker_step i c)"
      "mset (caught (worker_step i c)) + errs_left (worker_step i c) = errs (fj_root c)"
      using worker_step_count [of c i] worker_step_idx [of c i] worker_step_fire [of c i]
        worker_step_slot [of c i] worker_step_errs_left [of c i]
      by (auto simp: fj_inv_def inv_err_def)
    with True Worker show ?thesis
      by (simp add: fj_inv_def inv_err_def fj_step_def)
  qed
qed

lemma fj_run_inv: "fj_inv c \<Longrightarrow> fj_inv (fj_run evs c)"
  by (induction evs arbitrary: c) (simp_all add: fj_step_inv)

lemma sum_list_replicate_0: "sum_list (replicate n (0 :: 'a :: monoid_add)) = 0"
  by (induction n) simp_all

lemma fj_init_inv: "fj_inv (fj_init n root)"
  by (simp add: sum_list_replicate_0 fj_inv_def inv_count_def inv_idx_def inv_fire_def
      inv_err_def slot_ok_def fj_init_def ThreadPool_new_def QuicksortState_new_def pending_def
      queued_jobs_def errs_left_def errs_main_def list_all_iff)

lemma fj_reachable_inv: "fj_inv (fj_run evs (fj_init n root))"
  by (rule fj_run_inv [OF fj_init_inv])

subsection \<open>Completion and the result seen by the waiter\<close>

text \<open>
  \<open>finished\<close>: the main thread holds the future, no task is queued and every worker is
  between tasks. \<open>future_get\<close> is \<^verbatim>\<open>fut.get()\<close> (line 148) on the promise's shared state:
  \<open>None\<close> while it would block, \<open>Inr ()\<close> for a normal return and \<open>Inl e\<close> for \<open>e\<close> rethrown.
\<close>

fun idle :: "'e wpoint \<Rightarrow> bool" where
  "idle LoopHead = True"
| "idle (StealScan k) = True"
| "idle Waiting = True"
| "idle _ = False"

definition finished :: "'e fj_cfg \<Rightarrow> bool" where
  "finished c \<longleftrightarrow>
     fj_main c = MWait \<and> concat (m_queues (fj_pool c)) = [] \<and> list_all idle (fj_workers c)"

fun future_get :: "'e promise \<Rightarrow> ('e + unit) option" where
  "future_get Pending = None"
| "future_get Ready = Some (Inr ())"
| "future_get (Failed e) = Some (Inl e)"

lemma inv_fireD:
  assumes "inv_fire c"
  shows "Crashed \<notin> set (fj_workers c)"
    and "hits c = fired c + sum_list (map fin_w (fj_workers c))"
    and "fj_main c = MStart \<longrightarrow> hits c = 0 \<and> counter (fj_state c) = 0"
    and "fj_main c \<noteq> MStart \<longrightarrow> hits c + (if 0 < counter (fj_state c) then 1 else 0) = 1"
    and "prom (fj_state c) = Pending \<longleftrightarrow> fired c = 0"
    and "except_set (fj_state c) \<longrightarrow> except_ptr (fj_state c) \<noteq> None"
  using assms unfolding inv_fire_def by blast+

lemma fj_invD:
  assumes "fj_inv c"
  shows "inv_count c" and "inv_fire c" and "inv_err c" and "inv_idx c"
  using assms unfolding fj_inv_def by blast+

lemma fetch_sub_step:
  "Crashed \<notin> set (fj_workers c) \<Longrightarrow> i < length (fj_workers c) \<Longrightarrow>
   fj_workers c ! i = FetchSub \<Longrightarrow>
   fj_workers (fj_step (Worker i) c) ! i
     = (if counter (fj_state c) = 1 then Finalize else LoopHead)"
  by (simp add: fj_step_def worker_step_def Let_def)

lemma idle_sums:
  "list_all idle ws \<Longrightarrow>
   sum_list (map pend_w ws) = 0 \<and> sum_list (map fin_w ws) = 0 \<and> sum_list (map errs_w ws) = {#}"
proof (induction ws)
  case Nil
  then show ?case by simp
next
  case (Cons w ws)
  then show ?case by (cases w) simp_all
qed

lemma pend_zero_errs: "pend_w w = 0 \<Longrightarrow> errs_w w = {#}"
  by (cases w) simp_all

lemma sum_pend_zero_errs:
  "sum_list (map pend_w ws) = 0 \<Longrightarrow> sum_list (map errs_w ws) = {#}"
  by (induction ws) (simp_all add: pend_zero_errs)

lemma finished_fired:
  assumes "fj_inv c" "finished c"
  shows "fired c = 1 \<and> hits c = 1 \<and> counter (fj_state c) = 0 \<and> mset (caught c) = errs (fj_root c)"
proof -
  from assms(2) have f: "fj_main c = MWait" "concat (m_queues (fj_pool c)) = []"
    "list_all idle (fj_workers c)"
    by (simp_all add: finished_def)
  note z = idle_sums [OF f(3)]
  have "pending c = 0" unfolding pending_def queued_jobs_def f(2) using f(1) z by simp
  with fj_invD(1) [OF assms(1)] have c0: "counter (fj_state c) = 0"
    by (simp add: inv_count_def)
  note i = inv_fireD [OF fj_invD(2) [OF assms(1)]]
  from i(4) f(1) c0 have h1: "hits c = 1" by simp
  with i(2) z have "hits c = 1" "fired c = 1" by simp_all
  moreover have "queued_jobs c = {#}" unfolding queued_jobs_def f(2) by simp
  with f(1) z have "errs_left c = {#}"
    by (simp add: errs_left_def errs_main_def)
  with fj_invD(3) [OF assms(1)] have "mset (caught c) = errs (fj_root c)"
    by (simp add: inv_err_def)
  ultimately show ?thesis using c0 by simp
qed

lemma set_implies_quiet:
  assumes "fj_inv c" "prom (fj_state c) \<noteq> Pending"
  shows "counter (fj_state c) = 0 \<and> fired c = 1 \<and> mset (caught c) = errs (fj_root c)"
proof -
  from assms inv_fireD(5) [OF fj_invD(2) [OF assms(1)]] have f: "fired c \<noteq> 0" by simp
  note i = inv_fireD [OF fj_invD(2) [OF assms(1)]]
  from f i(2) have hp: "0 < hits c" by arith
  with i(3) have ms: "fj_main c \<noteq> MStart" by auto
  with i(4) hp have h12: "hits c = 1" "\<not> 0 < counter (fj_state c)"
    by (auto split: if_splits)
  with f i(2) have "fired c = 1" by arith
  with h12 ms have h: "hits c = 1" "fj_main c \<noteq> MStart" "\<not> 0 < counter (fj_state c)"
    "fired c = 1"
    by simp_all
  with assms(1) have p: "pending c = 0" and c0: "counter (fj_state c) = 0"
    by (simp_all add: fj_inv_def inv_count_def)
  then have "pend_m (fj_main c) = 0" "queued_jobs c = {#}"
    "sum_list (map pend_w (fj_workers c)) = 0"
    by (auto simp: pending_def)
  with h(2) sum_pend_zero_errs [of "fj_workers c"] have "errs_left c = {#}"
    by (cases "fj_main c") (simp_all add: errs_left_def errs_main_def)
  with fj_invD(3) [OF assms(1)] have "mset (caught c) = errs (fj_root c)"
    by (simp add: inv_err_def)
  with c0 h(4) show ?thesis by simp
qed

lemma finalize_step:
  assumes inv: "fj_inv c" and i: "i < length (fj_workers c)"
    and f: "fj_workers c ! i = Finalize"
  shows "fj_workers (fj_step (Worker i) c) ! i = LoopHead"
proof -
  from inv have nc: "Crashed \<notin> set (fj_workers c)"
    using inv_fireD(1) [OF fj_invD(2)] by blast
  then have eq: "fj_step (Worker i) c = worker_step i c" using i by (simp add: fj_step_def)
  have "fj_inv (fj_step (Worker i) c)" using inv by (rule fj_step_inv)
  then have nc': "Crashed \<notin> set (fj_workers (worker_step i c))"
    using inv_fireD(1) [OF fj_invD(2)] eq by metis
  have len: "length (fj_workers (worker_step i c)) = length (fj_workers c)"
    using f by (simp add: worker_step_def split: promise.splits option.splits)
  have "fj_workers (worker_step i c) ! i = LoopHead \<or> fj_workers (worker_step i c) ! i = Crashed"
    using f i by (simp add: worker_step_def split: promise.splits option.splits)
  moreover have "fj_workers (worker_step i c) ! i \<in> set (fj_workers (worker_step i c))"
    using i len by simp
  ultimately show ?thesis using nc' eq by metis
qed

lemma catch_step:
  assumes nc: "Crashed \<notin> set (fj_workers c)" and i: "i < length (fj_workers c)"
    and f: "fj_workers c ! i = InJob [] (Some e)"
  shows "fj_workers (fj_step (Worker i) c) ! i = FetchSub"
    and "length (fj_workers (fj_step (Worker i) c)) = length (fj_workers c)"
  using assms by (simp_all add: fj_step_def worker_step_def)

lemma length_fj_step [simp]: "length (fj_workers (fj_step ev c)) = length (fj_workers c)"
  by (cases ev)
    (simp_all add: fj_step_def worker_step_def main_step_def Let_def case_prod_beta
      split: wpoint.splits option.splits list.splits promise.splits mpoint.splits)

lemma slot_write_once:
  "except_set (fj_state c) \<Longrightarrow>
   except_set (fj_state (fj_step ev c)) \<and>
   except_ptr (fj_state (fj_step ev c)) = except_ptr (fj_state c)"
  by (cases ev)
    (simp_all add: fj_step_def worker_step_def main_step_def Let_def case_prod_beta
      split: wpoint.splits option.splits list.splits promise.splits mpoint.splits)

lemma result_of_slot:
  assumes "slot_ok c" "prom (fj_state c) \<noteq> Pending"
  shows "future_get (prom (fj_state c)) = Some (case caught c of [] \<Rightarrow> Inr () | e # es \<Rightarrow> Inl e)"
proof (cases "prom (fj_state c)")
  case Pending
  with assms show ?thesis by simp
next
  case Ready
  with assms(1) have "caught c = []" unfolding slot_ok_def by blast
  with Ready show ?thesis by simp
next
  case (Failed e)
  with assms(1) have "caught c \<noteq> [] \<and> e = hd (caught c)" unfolding slot_ok_def by blast
  with Failed show ?thesis by (cases "caught c") simp_all
qed

lemma fj_run_append: "fj_run (xs @ ys) c = fj_run ys (fj_run xs c)"
  by (induction xs arbitrary: c) simp_all

lemma fj_root_step [simp]: "fj_root (fj_step ev c) = fj_root c"
  by (cases ev) (simp_all add: fj_step_def main_step_def case_prod_beta split: mpoint.splits)

lemma fj_root_run [simp]: "fj_root (fj_run evs c) = fj_root c"
  by (induction evs arbitrary: c) simp_all

lemma fires_in_finalize:
  "fired (fj_step ev c) = fired c \<or>
   (\<exists>i < length (fj_workers c). ev = Worker i \<and> fj_workers c ! i = Finalize \<and>
      prom (fj_state c) = Pending \<and> fired (fj_step ev c) = fired c + 1)"
  by (cases ev)
    (simp_all add: fj_step_def worker_step_def main_step_def Let_def set_point_def
      case_prod_beta
      split: wpoint.splits option.splits list.splits promise.splits mpoint.splits)

lemma reaches_finalize:
  "i < length (fj_workers c) \<Longrightarrow> fj_workers (fj_step ev c) ! i = Finalize \<Longrightarrow>
   fj_workers c ! i = Finalize \<or>
   (ev = Worker i \<and> fj_workers c ! i = FetchSub \<and> counter (fj_state c) = 1 \<and>
    counter (fj_state (fj_step ev c)) = 0)"
proof (cases ev)
  case Main
  then show "fj_workers (fj_step ev c) ! i = Finalize \<Longrightarrow> ?thesis"
    by (simp add: fj_step_def main_step_def case_prod_beta split: mpoint.splits if_splits)
next
  case (Worker j)
  assume i: "i < length (fj_workers c)" and f: "fj_workers (fj_step ev c) ! i = Finalize"
  show ?thesis
  proof (cases "Crashed \<in> set (fj_workers c) \<or> \<not> j < length (fj_workers c)")
    case True
    with f Worker show ?thesis by (auto simp: fj_step_def split: if_splits)
  next
    case False
    then have eq: "fj_step ev c = worker_step j c" using Worker by (simp add: fj_step_def)
    have ent: "enter t \<noteq> Finalize" for t :: "'a job" by (cases t) simp
    show ?thesis
    proof (cases "i = j")
      case False
      have "fj_workers (worker_step j c) ! i = fj_workers c ! i"
        using False
        by (simp add: worker_step_def Let_def set_point_def case_prod_beta
            split: wpoint.splits option.splits list.splits promise.splits)
      with f eq show ?thesis by simp
    next
      case True
      with f eq i ent Worker show ?thesis
        by (cases "fj_workers c ! j")
          (auto simp: worker_step_def Let_def set_point_def case_prod_beta
            split: option.splits list.splits promise.splits if_splits)
    qed
  qed
qed

subsection \<open>Every run can be completed\<close>

text \<open>
  \<open>todo\<close> bounds the steps that remain: the jobs still to be spawned, taken, run and
  finished. No step raises it, every step of the main thread and of a worker inside a task
  lowers it, and a worker between tasks lowers it within one pass of its loop when some queue
  holds a task.
\<close>

primrec work :: "'e job \<Rightarrow> nat" where
  "work (Job js outcome) = 4 + 3 * length js + sum_list (map work js)"

fun work_w :: "'e wpoint \<Rightarrow> nat" where
  "work_w (InJob js outcome) = 3 + 3 * length js + sum_list (map work js)"
| "work_w (InSpawn j js outcome) = 5 + work j + 3 * length js + sum_list (map work js)"
| "work_w (InPush idx j js outcome) = 4 + work j + 3 * length js + sum_list (map work js)"
| "work_w FetchSub = 2"
| "work_w Finalize = 1"
| "work_w _ = 0"

fun work_m :: "mpoint \<Rightarrow> nat \<Rightarrow> nat" where
  "work_m MStart w = 3 + w"
| "work_m MSpawn w = 2 + w"
| "work_m (MPush idx) w = 1 + w"
| "work_m MWait w = 0"

definition todo :: "'e fj_cfg \<Rightarrow> nat" where
  "todo c =
     work_m (fj_main c) (work (fj_root c))
     + sum_mset (image_mset work (queued_jobs c))
     + sum_list (map work_w (fj_workers c))"

lemma work_enter: "work t = Suc (work_w (enter t))"
  by (cases t) simp

lemma todo_main:
  assumes "inv_count c" "inv_idx c" "fj_main c \<noteq> MWait"
  shows "todo (fj_step Main c) < todo c \<or> Crashed \<in> set (fj_workers c)"
proof (cases "Crashed \<in> set (fj_workers c)")
  case True
  then show ?thesis by simp
next
  case False
  show ?thesis
  proof (cases "fj_main c")
    case (MPush idx)
    with assms(2) have "idx < length (m_queues (fj_pool c))" by (simp add: inv_idx_def)
    from queued_push_front [OF this, of "fj_root c"] False MPush show ?thesis
      by (simp add: fj_step_def main_step_def todo_def queued_jobs_def)
  qed (use False assms(3) in \<open>simp_all add: fj_step_def main_step_def todo_def queued_jobs_def
      case_prod_beta\<close>)
qed

lemma todo_worker:
  assumes cnt: "inv_count c" and nc: "Crashed \<notin> set (fj_workers c)"
    and i: "i < length (fj_workers c)" and idx: "inv_idx c"
  shows "todo (fj_step (Worker i) c) \<le> todo c \<and>
         (\<not> idle (fj_workers c ! i) \<longrightarrow> todo (fj_step (Worker i) c) < todo c) \<and>
         (fj_pool (fj_step (Worker i) c) \<noteq> fj_pool c \<longrightarrow> todo (fj_step (Worker i) c) < todo c)"
proof -
  from cnt i have iq: "i < length (m_queues (fj_pool c))" and n: "0 < length (m_queues (fj_pool c))"
    by (simp_all add: inv_count_def)
  have sq: "steal_idx i k (length (m_queues (fj_pool c))) < length (m_queues (fj_pool c))" for k
    using n by (simp add: steal_idx_def)
  note upd = sum_list_update_add [OF i, of work_w]
  have eq: "fj_step (Worker i) c = worker_step i c" using nc i by (simp add: fj_step_def)
  have ne: "fj_workers c ! i \<noteq> Crashed" using nc i by (metis nth_mem)
  show ?thesis
    unfolding eq
  proof (cases "fj_workers c ! i")
    case LoopHead
    show "todo (worker_step i c) \<le> todo c \<and>
         (\<not> idle (fj_workers c ! i) \<longrightarrow> todo (worker_step i c) < todo c) \<and>
         (fj_pool (worker_step i c) \<noteq> fj_pool c \<longrightarrow> todo (worker_step i c) < todo c)"
    proof (cases "try_pop_from_queue i (fj_pool c)")
      case None
      with LoopHead upd [of "StealScan 0"] show ?thesis
        by (simp add: worker_step_def todo_def queued_jobs_def)
    next
      case (Some a)
      obtain t p' where a: "a = (t, p')" by (cases a)
      from work_enter [of t] queued_pop [OF Some [unfolded a] iq] LoopHead Some a upd [of "enter t"]
      show ?thesis
        by (simp add: worker_step_def todo_def queued_jobs_def)
    qed
  next
    case (StealScan k)
    show "todo (worker_step i c) \<le> todo c \<and>
         (\<not> idle (fj_workers c ! i) \<longrightarrow> todo (worker_step i c) < todo c) \<and>
         (fj_pool (worker_step i c) \<noteq> fj_pool c \<longrightarrow> todo (worker_step i c) < todo c)"
    proof (cases "k < length (m_queues (fj_pool c))")
      case False
      with StealScan upd [of Waiting] show ?thesis
        by (simp add: worker_step_def todo_def queued_jobs_def)
    next
      case True
      show ?thesis
      proof (cases "try_steal_from_queue (steal_idx i k (length (m_queues (fj_pool c))))
          (fj_pool c)")
        case None
        with True StealScan upd [of "StealScan (k + 1)"] show ?thesis
          by (simp add: worker_step_def todo_def queued_jobs_def)
      next
        case (Some a)
        obtain t p' where a: "a = (t, p')" by (cases a)
        from work_enter [of t] queued_steal [OF Some [unfolded a] sq] True StealScan Some a upd [of "enter t"]
        show ?thesis
          by (simp add: worker_step_def todo_def queued_jobs_def)
      qed
    qed
  next
    case Waiting
    with upd [of LoopHead] show "todo (worker_step i c) \<le> todo c \<and>
         (\<not> idle (fj_workers c ! i) \<longrightarrow> todo (worker_step i c) < todo c) \<and>
         (fj_pool (worker_step i c) \<noteq> fj_pool c \<longrightarrow> todo (worker_step i c) < todo c)"
      by (simp add: worker_step_def todo_def queued_jobs_def)
  next
    case (InJob js outcome)
    show "todo (worker_step i c) \<le> todo c \<and>
         (\<not> idle (fj_workers c ! i) \<longrightarrow> todo (worker_step i c) < todo c) \<and>
         (fj_pool (worker_step i c) \<noteq> fj_pool c \<longrightarrow> todo (worker_step i c) < todo c)"
    proof (cases js)
      case (Cons j js')
      with InJob upd [of "InSpawn j js' outcome"] show ?thesis
        by (simp add: worker_step_def todo_def queued_jobs_def)
    next
      case Nil
      with InJob upd [of FetchSub] show ?thesis
        by (cases outcome) (simp_all add: worker_step_def todo_def queued_jobs_def)
    qed
  next
    case (InSpawn j js outcome)
    with upd [of "InPush (fst (fetch_add_index (fj_pool c))) j js outcome"]
    show "todo (worker_step i c) \<le> todo c \<and>
         (\<not> idle (fj_workers c ! i) \<longrightarrow> todo (worker_step i c) < todo c) \<and>
         (fj_pool (worker_step i c) \<noteq> fj_pool c \<longrightarrow> todo (worker_step i c) < todo c)"
      by (simp add: worker_step_def todo_def queued_jobs_def case_prod_beta)
  next
    case (InPush k j js outcome)
    with idx i have "k < length (m_queues (fj_pool c))"
      by (auto simp: inv_idx_def list_all_length)
    from queued_push_front [OF this, of j] InPush upd [of "InJob js outcome"]
    show "todo (worker_step i c) \<le> todo c \<and>
         (\<not> idle (fj_workers c ! i) \<longrightarrow> todo (worker_step i c) < todo c) \<and>
         (fj_pool (worker_step i c) \<noteq> fj_pool c \<longrightarrow> todo (worker_step i c) < todo c)"
      by (simp add: worker_step_def todo_def queued_jobs_def)
  next
    case FetchSub
    with upd [of Finalize] upd [of LoopHead]
    show "todo (worker_step i c) \<le> todo c \<and>
         (\<not> idle (fj_workers c ! i) \<longrightarrow> todo (worker_step i c) < todo c) \<and>
         (fj_pool (worker_step i c) \<noteq> fj_pool c \<longrightarrow> todo (worker_step i c) < todo c)"
      by (simp add: worker_step_def todo_def queued_jobs_def Let_def)
  next
    case Finalize
    with upd [of LoopHead] upd [of Crashed]
    show "todo (worker_step i c) \<le> todo c \<and>
         (\<not> idle (fj_workers c ! i) \<longrightarrow> todo (worker_step i c) < todo c) \<and>
         (fj_pool (worker_step i c) \<noteq> fj_pool c \<longrightarrow> todo (worker_step i c) < todo c)"
      by (simp add: worker_step_def todo_def queued_jobs_def
          split: promise.splits option.splits)
  next
    case Crashed
    with ne show "todo (worker_step i c) \<le> todo c \<and>
         (\<not> idle (fj_workers c ! i) \<longrightarrow> todo (worker_step i c) < todo c) \<and>
         (fj_pool (worker_step i c) \<noteq> fj_pool c \<longrightarrow> todo (worker_step i c) < todo c)"
      by simp
  qed
qed

definition can_progress :: "nat \<Rightarrow> 'e fj_cfg \<Rightarrow> bool" where
  "can_progress i c \<longleftrightarrow> (\<exists>m. todo (fj_run (replicate m (Worker i)) c) < todo c)"

lemma can_progress_now:
  "todo (fj_step (Worker i) c) < todo c \<Longrightarrow> can_progress i c"
  unfolding can_progress_def by (rule exI [of _ 1]) simp

lemma can_progress_later:
  assumes "todo (fj_step (Worker i) c) \<le> todo c" "can_progress i (fj_step (Worker i) c)"
  shows "can_progress i c"
proof -
  from assms(2) obtain m where
    "todo (fj_run (replicate m (Worker i)) (fj_step (Worker i) c)) < todo (fj_step (Worker i) c)"
    unfolding can_progress_def by blast
  with assms(1) have "todo (fj_run (replicate (Suc m) (Worker i)) c) < todo c" by simp
  then show ?thesis unfolding can_progress_def by blast
qed

lemma idle_steps:
  assumes nc: "Crashed \<notin> set (fj_workers c)" and i: "i < length (fj_workers c)"
  shows "fj_workers c ! i = LoopHead \<Longrightarrow> m_queues (fj_pool c) ! i = [] \<Longrightarrow>
           fj_step (Worker i) c = set_point i (StealScan 0) c"
    and "fj_workers c ! i = StealScan k \<Longrightarrow> k < length (m_queues (fj_pool c)) \<Longrightarrow>
           m_queues (fj_pool c) ! steal_idx i k (length (m_queues (fj_pool c))) = [] \<Longrightarrow>
           fj_step (Worker i) c = set_point i (StealScan (k + 1)) c"
    and "fj_workers c ! i = StealScan k \<Longrightarrow> \<not> k < length (m_queues (fj_pool c)) \<Longrightarrow>
           fj_step (Worker i) c = set_point i Waiting c"
    and "fj_workers c ! i = Waiting \<Longrightarrow> fj_step (Worker i) c = set_point i LoopHead c"
proof -
  have eq: "fj_step (Worker i) c = worker_step i c" using nc i by (simp add: fj_step_def)
  show "fj_workers c ! i = LoopHead \<Longrightarrow> m_queues (fj_pool c) ! i = [] \<Longrightarrow>
           fj_step (Worker i) c = set_point i (StealScan 0) c"
    unfolding eq by (simp add: worker_step_def try_pop_from_queue_def)
  show "fj_workers c ! i = Waiting \<Longrightarrow> fj_step (Worker i) c = set_point i LoopHead c"
    unfolding eq by (simp add: worker_step_def)
  show "fj_workers c ! i = StealScan k \<Longrightarrow> \<not> k < length (m_queues (fj_pool c)) \<Longrightarrow>
           fj_step (Worker i) c = set_point i Waiting c"
    unfolding eq by (simp add: worker_step_def)
  show "fj_workers c ! i = StealScan k \<Longrightarrow> k < length (m_queues (fj_pool c)) \<Longrightarrow>
           m_queues (fj_pool c) ! steal_idx i k (length (m_queues (fj_pool c))) = [] \<Longrightarrow>
           fj_step (Worker i) c = set_point i (StealScan (k + 1)) c"
    unfolding eq by (simp add: worker_step_def try_steal_from_queue_def)
qed

lemma hit_steps:
  assumes cnt: "inv_count c" and nc: "Crashed \<notin> set (fj_workers c)"
    and i: "i < length (fj_workers c)"
  shows "fj_workers c ! i = LoopHead \<Longrightarrow> m_queues (fj_pool c) ! i \<noteq> [] \<Longrightarrow>
           todo (fj_step (Worker i) c) < todo c"
    and "fj_workers c ! i = StealScan k \<Longrightarrow> k < length (m_queues (fj_pool c)) \<Longrightarrow>
           m_queues (fj_pool c) ! steal_idx i k (length (m_queues (fj_pool c))) \<noteq> [] \<Longrightarrow>
           todo (fj_step (Worker i) c) < todo c"
proof -
  from cnt i have iq: "i < length (m_queues (fj_pool c))" and n: "0 < length (m_queues (fj_pool c))"
    by (simp_all add: inv_count_def)
  have sq: "steal_idx i k (length (m_queues (fj_pool c))) < length (m_queues (fj_pool c))" for k
    using n by (simp add: steal_idx_def)
  note upd = sum_list_update_add [OF i, of work_w]
  have eq: "fj_step (Worker i) c = worker_step i c" using nc i by (simp add: fj_step_def)
  show "todo (fj_step (Worker i) c) < todo c"
    if h: "fj_workers c ! i = LoopHead" "m_queues (fj_pool c) ! i \<noteq> []"
  proof -
    from h(2) obtain a where Some: "try_pop_from_queue i (fj_pool c) = Some a"
      by (cases "m_queues (fj_pool c) ! i") (simp_all add: try_pop_from_queue_def)
    obtain t p' where a: "a = (t, p')" by (cases a)
    from work_enter [of t] queued_pop [OF Some [unfolded a] iq] h(1) Some a upd [of "enter t"]
    show ?thesis unfolding eq
      by (simp add: worker_step_def todo_def queued_jobs_def)
  qed
  show "todo (fj_step (Worker i) c) < todo c"
    if h: "fj_workers c ! i = StealScan k" "k < length (m_queues (fj_pool c))"
      "m_queues (fj_pool c) ! steal_idx i k (length (m_queues (fj_pool c))) \<noteq> []"
  proof -
    from h(3) obtain a where Some:
      "try_steal_from_queue (steal_idx i k (length (m_queues (fj_pool c)))) (fj_pool c) = Some a"
      by (simp add: try_steal_from_queue_def)
    obtain t p' where a: "a = (t, p')" by (cases a)
    from work_enter [of t] queued_steal [OF Some [unfolded a] sq] h(1,2) Some a upd [of "enter t"]
    show ?thesis unfolding eq
      by (simp add: worker_step_def todo_def queued_jobs_def)
  qed
qed

lemma set_point_obs [simp]:
  "fj_pool (set_point i w c) = fj_pool c"
  "fj_workers (set_point i w c) = (fj_workers c)[i := w]"
  by (simp_all add: set_point_def)

lemma scan_reaches:
  assumes "fj_inv c" "i < length (fj_workers c)" "fj_workers c ! i = StealScan k"
    "k \<le> k'" "k' < length (m_queues (fj_pool c))"
    "m_queues (fj_pool c) ! steal_idx i k' (length (m_queues (fj_pool c))) \<noteq> []"
  shows "can_progress i c"
  using assms
proof (induction "k' - k" arbitrary: k c)
  case 0
  then have kk: "k = k'" by simp
  from 0 have cnt: "inv_count c" and nc: "Crashed \<notin> set (fj_workers c)"
    by (simp_all add: fj_inv_def inv_fire_def)
  from hit_steps(2) [OF cnt nc 0(3) 0(4) _ _] 0 kk show ?case
    by (intro can_progress_now) simp
next
  case (Suc d)
  from Suc have cnt: "inv_count c" and nc: "Crashed \<notin> set (fj_workers c)"
    by (simp_all add: fj_inv_def inv_fire_def)
  from Suc have k: "k < length (m_queues (fj_pool c))" by simp
  show ?case
  proof (cases "m_queues (fj_pool c) ! steal_idx i k (length (m_queues (fj_pool c))) = []")
    case False
    from hit_steps(2) [OF cnt nc Suc(4) Suc(5) k False] show ?thesis
      by (rule can_progress_now)
  next
    case True
    let ?c1 = "fj_step (Worker i) c"
    have st: "?c1 = set_point i (StealScan (k + 1)) c"
      by (rule idle_steps(2) [OF nc Suc(4) Suc(5) k True])
    have inv1: "fj_inv ?c1" using Suc(3) by (rule fj_step_inv)
    have "can_progress i ?c1"
    proof (rule Suc(1) [of "k + 1"])
      show "d = k' - (k + 1)" using Suc(2) by simp
      show "fj_inv ?c1" by (rule inv1)
      show "i < length (fj_workers ?c1)" using Suc(4) by (simp add: st)
      show "fj_workers ?c1 ! i = StealScan (k + 1)" using Suc(4) by (simp add: st)
      show "k + 1 \<le> k'" using Suc(2) by simp
      show "k' < length (m_queues (fj_pool ?c1))" using Suc(7) by (simp add: st)
      show "m_queues (fj_pool ?c1) ! steal_idx i k' (length (m_queues (fj_pool ?c1))) \<noteq> []"
        using Suc(8) by (simp add: st)
    qed
    moreover have "todo ?c1 \<le> todo c"
      using todo_worker [OF cnt nc Suc(4) fj_invD(4) [OF Suc(3)]] by simp
    ultimately show ?thesis by (rule can_progress_later [rotated])
  qed
qed

lemma fj_inv_basic:
  assumes "fj_inv c"
  shows "inv_count c" "Crashed \<notin> set (fj_workers c)"
    "length (fj_workers c) = length (m_queues (fj_pool c))" "0 < length (fj_workers c)"
    "inv_idx c"
  using assms by (simp_all add: fj_inv_def inv_fire_def inv_count_def)

lemma loop_head_reaches:
  assumes inv: "fj_inv c" and i: "i < length (fj_workers c)"
    and at: "fj_workers c ! i = LoopHead"
    and q: "q < length (m_queues (fj_pool c))" "m_queues (fj_pool c) ! q \<noteq> []"
  shows "can_progress i c"
proof (cases "m_queues (fj_pool c) ! i = []")
  case False
  from hit_steps(1) [OF fj_inv_basic(1,2) [OF inv] i at False] show ?thesis
    by (rule can_progress_now)
next
  case True
  note b = fj_inv_basic [OF inv]
  let ?c1 = "fj_step (Worker i) c"
  let ?n = "length (m_queues (fj_pool c))"
  have st: "?c1 = set_point i (StealScan 0) c"
    by (rule idle_steps(1) [OF b(2) i at True])
  from steal_idx_onto [of i ?n q] i q(1) b(3) obtain k' where
    k': "k' < ?n" "steal_idx i k' ?n = q" by auto
  have "can_progress i ?c1"
  proof (rule scan_reaches [of _ _ 0 k'])
    show "fj_inv ?c1" using inv by (rule fj_step_inv)
    show "i < length (fj_workers ?c1)" using i by (simp add: st)
    show "fj_workers ?c1 ! i = StealScan 0" using i by (simp add: st)
    show "0 \<le> k'" by simp
    show "k' < length (m_queues (fj_pool ?c1))" using k'(1) by (simp add: st)
    show "m_queues (fj_pool ?c1) ! steal_idx i k' (length (m_queues (fj_pool ?c1))) \<noteq> []"
      using k'(2) q(2) by (simp add: st)
  qed
  moreover have "todo ?c1 \<le> todo c" using todo_worker [OF b(1,2) i b(5)] by simp
  ultimately show ?thesis by (rule can_progress_later [rotated])
qed

lemma waiting_reaches:
  assumes inv: "fj_inv c" and i: "i < length (fj_workers c)"
    and at: "fj_workers c ! i = Waiting"
    and q: "q < length (m_queues (fj_pool c))" "m_queues (fj_pool c) ! q \<noteq> []"
  shows "can_progress i c"
proof -
  note b = fj_inv_basic [OF inv]
  let ?c1 = "fj_step (Worker i) c"
  have st: "?c1 = set_point i LoopHead c"
    by (rule idle_steps(4) [OF b(2) i at])
  have "can_progress i ?c1"
  proof (rule loop_head_reaches [of _ _ q])
    show "fj_inv ?c1" using inv by (rule fj_step_inv)
    show "i < length (fj_workers ?c1)" using i by (simp add: st)
    show "fj_workers ?c1 ! i = LoopHead" using i by (simp add: st)
    show "q < length (m_queues (fj_pool ?c1))" using q(1) by (simp add: st)
    show "m_queues (fj_pool ?c1) ! q \<noteq> []" using q(2) by (simp add: st)
  qed
  moreover have "todo ?c1 \<le> todo c" using todo_worker [OF b(1,2) i b(5)] by simp
  ultimately show ?thesis by (rule can_progress_later [rotated])
qed

lemma steal_scan_reaches:
  assumes "fj_inv c" "i < length (fj_workers c)" "fj_workers c ! i = StealScan k"
    "q < length (m_queues (fj_pool c))" "m_queues (fj_pool c) ! q \<noteq> []"
  shows "can_progress i c"
  using assms
proof (induction "length (m_queues (fj_pool c)) - k" arbitrary: k c)
  case 0
  note b = fj_inv_basic [OF 0(2)]
  let ?c1 = "fj_step (Worker i) c"
  from 0(1) have k: "\<not> k < length (m_queues (fj_pool c))" by simp
  have st: "?c1 = set_point i Waiting c"
    by (rule idle_steps(3) [OF b(2) 0(3) 0(4) k])
  have "can_progress i ?c1"
  proof (rule waiting_reaches [of _ _ q])
    show "fj_inv ?c1" using 0(2) by (rule fj_step_inv)
    show "i < length (fj_workers ?c1)" using 0(3) by (simp add: st)
    show "fj_workers ?c1 ! i = Waiting" using 0(3) by (simp add: st)
    show "q < length (m_queues (fj_pool ?c1))" using 0(5) by (simp add: st)
    show "m_queues (fj_pool ?c1) ! q \<noteq> []" using 0(6) by (simp add: st)
  qed
  moreover have "todo ?c1 \<le> todo c" using todo_worker [OF b(1,2) 0(3) b(5)] by simp
  ultimately show ?case by (rule can_progress_later [rotated])
next
  case (Suc d)
  note b = fj_inv_basic [OF Suc(3)]
  let ?c1 = "fj_step (Worker i) c"
  from Suc(2) have k: "k < length (m_queues (fj_pool c))" by simp
  show ?case
  proof (cases "m_queues (fj_pool c) ! steal_idx i k (length (m_queues (fj_pool c))) = []")
    case False
    from hit_steps(2) [OF b(1,2) Suc(4) Suc(5) k False] show ?thesis
      by (rule can_progress_now)
  next
    case True
    have st: "?c1 = set_point i (StealScan (k + 1)) c"
      by (rule idle_steps(2) [OF b(2) Suc(4) Suc(5) k True])
    have "can_progress i ?c1"
    proof (rule Suc(1) [of _ "k + 1"])
      show "d = length (m_queues (fj_pool ?c1)) - (k + 1)" using Suc(2) by (simp add: st)
      show "fj_inv ?c1" using Suc(3) by (rule fj_step_inv)
      show "i < length (fj_workers ?c1)" using Suc(4) by (simp add: st)
      show "fj_workers ?c1 ! i = StealScan (k + 1)" using Suc(4) by (simp add: st)
      show "q < length (m_queues (fj_pool ?c1))" using Suc(6) by (simp add: st)
      show "m_queues (fj_pool ?c1) ! q \<noteq> []" using Suc(7) by (simp add: st)
    qed
    moreover have "todo ?c1 \<le> todo c" using todo_worker [OF b(1,2) Suc(4) b(5)] by simp
    ultimately show ?thesis by (rule can_progress_later [rotated])
  qed
qed

lemma idle_reaches:
  assumes inv: "fj_inv c" and i: "i < length (fj_workers c)"
    and at: "idle (fj_workers c ! i)"
    and q: "concat (m_queues (fj_pool c)) \<noteq> []"
  shows "can_progress i c"
proof -
  from q obtain q' where q': "q' < length (m_queues (fj_pool c))" "m_queues (fj_pool c) ! q' \<noteq> []"
    by (auto simp: in_set_conv_nth)
  show ?thesis
  proof (cases "fj_workers c ! i")
    case LoopHead
    then show ?thesis by (rule loop_head_reaches [OF inv i _ q'])
  next
    case (StealScan k)
    then show ?thesis by (rule steal_scan_reaches [OF inv i _ q'])
  next
    case Waiting
    then show ?thesis by (rule waiting_reaches [OF inv i _ q'])
  qed (use at in simp_all)
qed

lemma can_finish: "fj_inv c \<Longrightarrow> \<exists>evs. finished (fj_run evs c)"
proof (induction "todo c" arbitrary: c rule: less_induct)
  case less
  note b = fj_inv_basic [OF less(2)]
  have next_ok: "\<exists>evs. finished (fj_run evs c)"
    if "todo (fj_run es c) < todo c" for es
  proof -
    have "fj_inv (fj_run es c)" using less(2) by (rule fj_run_inv)
    from less(1) [OF that this] obtain evs where "finished (fj_run evs (fj_run es c))" by blast
    then have "finished (fj_run (es @ evs) c)" by (simp add: fj_run_append)
    then show ?thesis by blast
  qed
  show ?case
  proof (cases "fj_main c = MWait")
    case False
    from todo_main [OF b(1) b(5) False] b(2) have "todo (fj_run [Main] c) < todo c" by simp
    then show ?thesis by (rule next_ok)
  next
    case True
    show ?thesis
    proof (cases "list_all idle (fj_workers c)")
      case False
      then obtain i where i: "i < length (fj_workers c)" "\<not> idle (fj_workers c ! i)"
        by (auto simp: list_all_length)
      from todo_worker [OF b(1,2) i(1) b(5)] i(2) have "todo (fj_run [Worker i] c) < todo c" by simp
      then show ?thesis by (rule next_ok)
    next
      case idle: True
      show ?thesis
      proof (cases "concat (m_queues (fj_pool c)) = []")
        case True
        with idle \<open>fj_main c = MWait\<close> have "finished (fj_run [] c)" by (simp add: finished_def)
        then show ?thesis by blast
      next
        case False
        from idle b(4) have "idle (fj_workers c ! 0)" by (simp add: list_all_length)
        from idle_reaches [OF less(2) b(4) this False] obtain m where
          "todo (fj_run (replicate m (Worker 0)) c) < todo c"
          unfolding can_progress_def by blast
        then show ?thesis by (rule next_ok)
      qed
    qed
  qed
qed

subsection \<open>A run with two failing tasks, and a run with none\<close>

text \<open>
  A pool of one worker and a root job that spawns two jobs, throwing 1 and 2, and returns.
  The main thread takes three steps to spawn the root. The worker takes the most recently
  pushed job first, so the error 2 is caught first.
\<close>

lemmas fj_eval =
  fj_step_def worker_step_def main_step_def set_point_def fetch_add_index_def push_front_def
  try_pop_from_queue_def try_steal_from_queue_def steal_idx_def Let_def

lemma example_run_catch:
  "fj_run [Main, Main, Main, Worker 0, Worker 0, Worker 0, Worker 0,
            Worker 0, Worker 0, Worker 0, Worker 0, Worker 0, Worker 0]
     (fj_init 1 (Job [Job [] (Some (1::nat)), Job [] (Some 2)] None))
   = \<lparr>fj_pool = \<lparr>m_queues = [[Job [] (Some 1)]], m_index = 3\<rparr>,
      fj_workers = [InJob [] (Some 2)], fj_main = MWait,
      fj_root = Job [Job [] (Some 1), Job [] (Some 2)] None,
      fj_state = \<lparr>prom = Pending, counter = 2, except_ptr = None, except_set = False\<rparr>,
      caught = [], hits = 0, fired = 0\<rparr>"
  by (simp add: fj_eval fj_init_def ThreadPool_new_def QuicksortState_new_def)

lemma example_run_last:
  "fj_run [Worker 0, Worker 0, Worker 0, Worker 0]
     \<lparr>fj_pool = \<lparr>m_queues = [[Job [] (Some 1)]], m_index = 3\<rparr>,
      fj_workers = [InJob [] (Some 2)], fj_main = MWait,
      fj_root = Job [Job [] (Some 1), Job [] (Some 2)] None,
      fj_state = \<lparr>prom = Pending, counter = 2, except_ptr = None, except_set = False\<rparr>,
      caught = [], hits = 0, fired = 0\<rparr>
   = \<lparr>fj_pool = \<lparr>m_queues = [[]], m_index = 3\<rparr>,
      fj_workers = [FetchSub], fj_main = MWait,
      fj_root = Job [Job [] (Some 1), Job [] (Some (2::nat))] None,
      fj_state = \<lparr>prom = Pending, counter = 1, except_ptr = Some 2, except_set = True\<rparr>,
      caught = [2, 1], hits = 0, fired = 0\<rparr>"
  by (simp add: fj_eval)

lemma example_run_end:
  "fj_run [Worker 0, Worker 0]
     \<lparr>fj_pool = \<lparr>m_queues = [[]], m_index = 3\<rparr>,
      fj_workers = [FetchSub], fj_main = MWait,
      fj_root = Job [Job [] (Some 1), Job [] (Some (2::nat))] None,
      fj_state = \<lparr>prom = Pending, counter = 1, except_ptr = Some 2, except_set = True\<rparr>,
      caught = [2, 1], hits = 0, fired = 0\<rparr>
   = \<lparr>fj_pool = \<lparr>m_queues = [[]], m_index = 3\<rparr>,
      fj_workers = [LoopHead], fj_main = MWait,
      fj_root = Job [Job [] (Some 1), Job [] (Some (2::nat))] None,
      fj_state = \<lparr>prom = Failed 2, counter = 0, except_ptr = Some 2, except_set = True\<rparr>,
      caught = [2, 1], hits = 1, fired = 1\<rparr>"
  by (simp add: fj_eval)

text \<open>
  Three workers. The root spawns P and Q, which workers 1 and 2 take; P spawns X and Q
  spawns Y. The \<^verbatim>\<open>push_task\<close> of X takes its index first, the one of Y pushes first: Y is in
  queue 1 while X is not yet in queue 0.
\<close>

lemma example_push_overtakes:
  "fj_run [Main, Main, Main, Worker 0, Worker 0, Worker 0, Worker 0, Worker 0, Worker 0,
           Worker 0, Worker 1, Worker 2, Worker 1, Worker 1, Worker 2, Worker 2, Worker 2]
     (fj_init 3 (Job [Job [Job [] (Some (5::nat))] None, Job [Job [] (Some 6)] None] None))
   = \<lparr>fj_pool = \<lparr>m_queues = [[], [Job [] (Some 6)], []], m_index = 5\<rparr>,
      fj_workers = [InJob [] None, InPush 0 (Job [] (Some 5)) [] None, InJob [] None],
      fj_main = MWait,
      fj_root = Job [Job [Job [] (Some 5)] None, Job [Job [] (Some 6)] None] None,
      fj_state = \<lparr>prom = Pending, counter = 5, except_ptr = None, except_set = False\<rparr>,
      caught = [], hits = 0, fired = 0\<rparr>"
proof -
  have r3: "replicate 3 x = [x, x, x]" for x :: 'b
    by (simp add: numeral_3_eq_3)
  show ?thesis
    by (simp add: fj_eval fj_init_def ThreadPool_new_def QuicksortState_new_def r3
        nth_Cons' list_update_code)
qed

lemma example_run_second:
  "fj_run [Worker 0, Worker 0, Worker 0]
     \<lparr>fj_pool = \<lparr>m_queues = [[Job [] (Some 1)]], m_index = 3\<rparr>,
      fj_workers = [InJob [] (Some 2)], fj_main = MWait,
      fj_root = Job [Job [] (Some 1), Job [] (Some 2)] None,
      fj_state = \<lparr>prom = Pending, counter = 2, except_ptr = None, except_set = False\<rparr>,
      caught = [], hits = 0, fired = 0\<rparr>
   = \<lparr>fj_pool = \<lparr>m_queues = [[]], m_index = 3\<rparr>,
      fj_workers = [InJob [] (Some 1)], fj_main = MWait,
      fj_root = Job [Job [] (Some 1), Job [] (Some (2::nat))] None,
      fj_state = \<lparr>prom = Pending, counter = 1, except_ptr = Some 2, except_set = True\<rparr>,
      caught = [2], hits = 0, fired = 0\<rparr>"
  by (simp add: fj_eval)

lemma example_run_clean:
  "fj_run [Main, Main, Main, Worker 0, Worker 0, Worker 0, Worker 0] (fj_init 1 (Job [] None))
   = \<lparr>fj_pool = \<lparr>m_queues = [[]], m_index = 1\<rparr>,
      fj_workers = [LoopHead], fj_main = MWait,
      fj_root = Job [] None,
      fj_state = \<lparr>prom = Ready, counter = 0, except_ptr = None, except_set = False\<rparr>,
      caught = [], hits = 1, fired = 1\<rparr>"
  by (simp add: fj_eval fj_init_def ThreadPool_new_def QuicksortState_new_def)

lemma example_at_second:
  "fj_run [Main, Main, Main, Worker 0, Worker 0, Worker 0, Worker 0,
            Worker 0, Worker 0, Worker 0, Worker 0, Worker 0, Worker 0, Worker 0,
            Worker 0, Worker 0]
     (fj_init 1 (Job [Job [] (Some (1::nat)), Job [] (Some 2)] None))
   = \<lparr>fj_pool = \<lparr>m_queues = [[]], m_index = 3\<rparr>,
      fj_workers = [InJob [] (Some 1)], fj_main = MWait,
      fj_root = Job [Job [] (Some 1), Job [] (Some 2)] None,
      fj_state = \<lparr>prom = Pending, counter = 1, except_ptr = Some 2, except_set = True\<rparr>,
      caught = [2], hits = 0, fired = 0\<rparr>"
proof -
  have "[Main, Main, Main, Worker 0, Worker 0, Worker 0, Worker 0,
            Worker 0, Worker 0, Worker 0, Worker 0, Worker 0, Worker 0, Worker 0,
            Worker 0, Worker 0]
    = [Main, Main, Main, Worker 0, Worker 0, Worker 0, Worker 0,
            Worker 0, Worker 0, Worker 0, Worker 0, Worker 0, Worker 0] @ [Worker 0, Worker 0, Worker 0]"
    by simp
  then show ?thesis
    by (simp only: fj_run_append example_run_catch example_run_second)
qed

lemma example_at_last:
  "fj_run [Main, Main, Main, Worker 0, Worker 0, Worker 0, Worker 0,
            Worker 0, Worker 0, Worker 0, Worker 0, Worker 0, Worker 0, Worker 0,
            Worker 0, Worker 0, Worker 0]
     (fj_init 1 (Job [Job [] (Some (1::nat)), Job [] (Some 2)] None))
   = \<lparr>fj_pool = \<lparr>m_queues = [[]], m_index = 3\<rparr>,
      fj_workers = [FetchSub], fj_main = MWait,
      fj_root = Job [Job [] (Some 1), Job [] (Some 2)] None,
      fj_state = \<lparr>prom = Pending, counter = 1, except_ptr = Some 2, except_set = True\<rparr>,
      caught = [2, 1], hits = 0, fired = 0\<rparr>"
proof -
  have "[Main, Main, Main, Worker 0, Worker 0, Worker 0, Worker 0,
            Worker 0, Worker 0, Worker 0, Worker 0, Worker 0, Worker 0, Worker 0,
            Worker 0, Worker 0, Worker 0]
    = [Main, Main, Main, Worker 0, Worker 0, Worker 0, Worker 0,
            Worker 0, Worker 0, Worker 0, Worker 0, Worker 0, Worker 0] @ [Worker 0, Worker 0, Worker 0, Worker 0]"
    by simp
  then show ?thesis
    by (simp only: fj_run_append example_run_catch example_run_last)
qed

lemma example_at_end:
  "fj_run [Main, Main, Main, Worker 0, Worker 0, Worker 0, Worker 0,
            Worker 0, Worker 0, Worker 0, Worker 0, Worker 0, Worker 0, Worker 0,
            Worker 0, Worker 0, Worker 0, Worker 0, Worker 0]
     (fj_init 1 (Job [Job [] (Some (1::nat)), Job [] (Some 2)] None))
   = \<lparr>fj_pool = \<lparr>m_queues = [[]], m_index = 3\<rparr>,
      fj_workers = [LoopHead], fj_main = MWait,
      fj_root = Job [Job [] (Some 1), Job [] (Some 2)] None,
      fj_state = \<lparr>prom = Failed 2, counter = 0, except_ptr = Some 2, except_set = True\<rparr>,
      caught = [2, 1], hits = 1, fired = 1\<rparr>"
proof -
  have "[Main, Main, Main, Worker 0, Worker 0, Worker 0, Worker 0,
            Worker 0, Worker 0, Worker 0, Worker 0, Worker 0, Worker 0, Worker 0,
            Worker 0, Worker 0, Worker 0, Worker 0, Worker 0]
    = [Main, Main, Main, Worker 0, Worker 0, Worker 0, Worker 0,
            Worker 0, Worker 0, Worker 0, Worker 0, Worker 0, Worker 0, Worker 0,
            Worker 0, Worker 0, Worker 0] @ [Worker 0, Worker 0]"
    by simp
  then show ?thesis
    by (simp only: fj_run_append example_at_last example_run_end)
qed

lemma can_finish_from:
  "\<exists>evs'. finished (fj_run (evs @ evs') (fj_init n root))"
  using can_finish [OF fj_reachable_inv [of evs n root]] by (simp add: fj_run_append)

lemma result_cases:
  assumes sl: "slot_ok c" and p: "prom (fj_state c) \<noteq> Pending"
    and m: "mset (caught c) = E"
  shows "E = {#} \<longrightarrow> future_get (prom (fj_state c)) = Some (Inr ())"
    and "E \<noteq> {#} \<longrightarrow> (\<exists>e es. caught c = e # es \<and> future_get (prom (fj_state c)) = Some (Inl e))"
proof -
  note r = result_of_slot [OF sl p]
  show "E = {#} \<longrightarrow> future_get (prom (fj_state c)) = Some (Inr ())"
    using r m by (cases "caught c") auto
  show "E \<noteq> {#} \<longrightarrow> (\<exists>e es. caught c = e # es \<and> future_get (prom (fj_state c)) = Some (Inl e))"
    using r m by (cases "caught c") auto
qed

subsection \<open>The claims on the fork-join state\<close>

text \<open>
  Claim C1. For every task tree, every number of workers and every schedule, in the
  configuration reached: the promise has been set at most once, and it is pending exactly
  when it has not been set; every \<^verbatim>\<open>fetch_sub\<close> that returned 1 has set the promise or is at
  \<open>Finalize\<close>, about to; a step sets the promise only if it is the step of a worker at
  \<open>Finalize\<close>; a worker at \<open>FetchSub\<close> goes to \<open>Finalize\<close> if it reads the counter at 1 and
  back to the head of its loop otherwise, and a worker gets to \<open>Finalize\<close> in no other way, its
  decrement leaving the counter at 0; once the promise is set the counter is 0; when the run
  is finished the promise has been set exactly once; and every run can be continued to a
  finished one.
\<close>

theorem completion_fires_once:
  "fired (fj_run evs (fj_init n root)) \<le> 1 \<and>
   (prom (fj_state (fj_run evs (fj_init n root))) = Pending
      \<longleftrightarrow> fired (fj_run evs (fj_init n root)) = 0) \<and>
   hits (fj_run evs (fj_init n root))
     = fired (fj_run evs (fj_init n root))
       + sum_list (map fin_w (fj_workers (fj_run evs (fj_init n root)))) \<and>
   (fired (fj_step ev (fj_run evs (fj_init n root))) = fired (fj_run evs (fj_init n root)) \<or>
    (\<exists>i < length (fj_workers (fj_run evs (fj_init n root))).
       ev = Worker i \<and> fj_workers (fj_run evs (fj_init n root)) ! i = Finalize \<and>
       fired (fj_step ev (fj_run evs (fj_init n root)))
         = fired (fj_run evs (fj_init n root)) + 1)) \<and>
   (\<forall>i < length (fj_workers (fj_run evs (fj_init n root))).
      fj_workers (fj_run evs (fj_init n root)) ! i = FetchSub \<longrightarrow>
      fj_workers (fj_step (Worker i) (fj_run evs (fj_init n root))) ! i
        = (if counter (fj_state (fj_run evs (fj_init n root))) = 1 then Finalize else LoopHead)) \<and>
   (\<forall>i < length (fj_workers (fj_run evs (fj_init n root))).
      fj_workers (fj_step ev (fj_run evs (fj_init n root))) ! i = Finalize \<and>
      fj_workers (fj_run evs (fj_init n root)) ! i \<noteq> Finalize \<longrightarrow>
      ev = Worker i \<and> fj_workers (fj_run evs (fj_init n root)) ! i = FetchSub \<and>
      counter (fj_state (fj_run evs (fj_init n root))) = 1 \<and>
      counter (fj_state (fj_step ev (fj_run evs (fj_init n root)))) = 0) \<and>
   (fired (fj_run evs (fj_init n root)) = 1 \<longrightarrow>
      counter (fj_state (fj_run evs (fj_init n root))) = 0) \<and>
   (finished (fj_run evs (fj_init n root)) \<longrightarrow> fired (fj_run evs (fj_init n root)) = 1) \<and>
   (\<exists>evs'. finished (fj_run (evs @ evs') (fj_init n root)))"
proof -
  define c where "c = fj_run evs (fj_init n root)"
  have inv: "fj_inv c" unfolding c_def by (rule fj_reachable_inv)
  note i = inv_fireD [OF fj_invD(2) [OF inv]]
  note h = i(2) i(5) i(1)
  from i(3,4) have le: "hits c \<le> 1"
    by (cases "fj_main c = MStart") (auto split: if_splits)
  with h(1) have f1: "fired c \<le> 1" by arith
  have q: "fired c = 1 \<longrightarrow> counter (fj_state c) = 0"
  proof
    assume "fired c = 1"
    with h(2) have "prom (fj_state c) \<noteq> Pending" by simp
    from set_implies_quiet [OF inv this] show "counter (fj_state c) = 0" by blast
  qed
  have fin: "finished c \<longrightarrow> fired c = 1"
    using finished_fired [OF inv] by blast
  have st: "\<forall>i < length (fj_workers c). fj_workers c ! i = FetchSub \<longrightarrow>
      fj_workers (fj_step (Worker i) c) ! i
        = (if counter (fj_state c) = 1 then Finalize else LoopHead)"
    by (simp add: fetch_sub_step [OF h(3)])
  have fz: "fired (fj_step ev c) = fired c \<or>
    (\<exists>i < length (fj_workers c). ev = Worker i \<and> fj_workers c ! i = Finalize \<and>
       fired (fj_step ev c) = fired c + 1)"
    using fires_in_finalize [of ev c] by blast
  have rf: "\<forall>i < length (fj_workers c).
      fj_workers (fj_step ev c) ! i = Finalize \<and> fj_workers c ! i \<noteq> Finalize \<longrightarrow>
      ev = Worker i \<and> fj_workers c ! i = FetchSub \<and> counter (fj_state c) = 1 \<and>
      counter (fj_state (fj_step ev c)) = 0"
    using reaches_finalize [of _ c ev] by blast
  have ex: "\<exists>evs'. finished (fj_run (evs @ evs') (fj_init n root))"
    by (rule can_finish_from)
  show ?thesis
    unfolding c_def [symmetric] by (rule conjI f1 h(2) h(1) fz st rf q fin ex)+
qed

theorem completion_fires_once_witness:
  "finished (fj_run [Main, Main, Main, Worker 0, Worker 0, Worker 0, Worker 0,
            Worker 0, Worker 0, Worker 0, Worker 0, Worker 0, Worker 0, Worker 0,
            Worker 0, Worker 0, Worker 0, Worker 0, Worker 0]
               (fj_init 1 (Job [Job [] (Some (1::nat)), Job [] (Some 2)] None))) \<and>
   fired (fj_run [Main, Main, Main, Worker 0, Worker 0, Worker 0, Worker 0,
            Worker 0, Worker 0, Worker 0, Worker 0, Worker 0, Worker 0, Worker 0,
            Worker 0, Worker 0, Worker 0, Worker 0, Worker 0]
               (fj_init 1 (Job [Job [] (Some (1::nat)), Job [] (Some 2)] None))) = 1 \<and>
   counter (fj_state (fj_run [Main, Main, Main, Worker 0, Worker 0, Worker 0, Worker 0,
            Worker 0, Worker 0, Worker 0, Worker 0, Worker 0, Worker 0, Worker 0,
            Worker 0, Worker 0, Worker 0, Worker 0, Worker 0]
               (fj_init 1 (Job [Job [] (Some (1::nat)), Job [] (Some 2)] None)))) = 0 \<and>
   fj_workers (fj_run [Main, Main, Main, Worker 0, Worker 0, Worker 0, Worker 0,
            Worker 0, Worker 0, Worker 0, Worker 0, Worker 0, Worker 0, Worker 0,
            Worker 0, Worker 0, Worker 0]
               (fj_init 1 (Job [Job [] (Some (1::nat)), Job [] (Some 2)] None))) ! 0 = FetchSub \<and>
   counter (fj_state (fj_run [Main, Main, Main, Worker 0, Worker 0, Worker 0, Worker 0,
            Worker 0, Worker 0, Worker 0, Worker 0, Worker 0, Worker 0, Worker 0,
            Worker 0, Worker 0, Worker 0]
               (fj_init 1 (Job [Job [] (Some (1::nat)), Job [] (Some 2)] None)))) = 1 \<and>
   fj_workers (fj_step (Worker 0)
     (fj_run [Main, Main, Main, Worker 0, Worker 0, Worker 0, Worker 0,
            Worker 0, Worker 0, Worker 0, Worker 0, Worker 0, Worker 0, Worker 0,
            Worker 0, Worker 0, Worker 0]
               (fj_init 1 (Job [Job [] (Some (1::nat)), Job [] (Some 2)] None)))) ! 0 = Finalize"
proof -
  let ?root = "Job [Job [] (Some (1::nat)), Job [] (Some 2)] None"
  let ?last = "fj_run [Main, Main, Main, Worker 0, Worker 0, Worker 0, Worker 0,
            Worker 0, Worker 0, Worker 0, Worker 0, Worker 0, Worker 0, Worker 0,
            Worker 0, Worker 0, Worker 0]
                 (fj_init 1 ?root)"
  let ?end = "fj_run [Main, Main, Main, Worker 0, Worker 0, Worker 0, Worker 0,
            Worker 0, Worker 0, Worker 0, Worker 0, Worker 0, Worker 0, Worker 0,
            Worker 0, Worker 0, Worker 0, Worker 0, Worker 0]
                 (fj_init 1 ?root)"
  have fin: "finished ?end" by (simp only: example_at_end) (simp add: finished_def)
  have at: "0 < length (fj_workers ?last)" "fj_workers ?last ! 0 = FetchSub"
    "counter (fj_state ?last) = 1"
    by (simp_all only: example_at_last) simp_all
  note e = completion_fires_once
    [where evs = "[Main, Main, Main, Worker 0, Worker 0, Worker 0, Worker 0,
            Worker 0, Worker 0, Worker 0, Worker 0, Worker 0, Worker 0, Worker 0,
            Worker 0, Worker 0, Worker 0, Worker 0, Worker 0]" and n = 1 and root = ?root]
  note l = completion_fires_once
    [where evs = "[Main, Main, Main, Worker 0, Worker 0, Worker 0, Worker 0,
            Worker 0, Worker 0, Worker 0, Worker 0, Worker 0, Worker 0, Worker 0,
            Worker 0, Worker 0, Worker 0]"
      and n = 1 and root = ?root]
  from e fin have f1: "fired ?end = 1" by blast
  with e have c0: "counter (fj_state ?end) = 0" by blast
  note l5 = l [THEN conjunct2, THEN conjunct2, THEN conjunct2, THEN conjunct2, THEN conjunct1]
  have "fj_workers (fj_step (Worker 0) ?last) ! 0
      = (if counter (fj_state ?last) = 1 then Finalize else LoopHead)"
    by (rule l5 [rule_format, OF at(1) at(2)])
  then have "fj_workers (fj_step (Worker 0) ?last) ! 0 = Finalize"
    by (simp only: at(3) simp_thms if_True)
  with fin f1 c0 at show ?thesis by blast
qed

text \<open>
  Claim C8. In every configuration that is reached no worker has crashed: no exception has
  left a wrapper. A worker whose task body throws catches the error and goes on to the
  \<^verbatim>\<open>fetch_sub\<close>, and is back at the head of its scheduling loop after one or two further
  steps of its own.
\<close>

theorem wrapper_contains_errors:
  "Crashed \<notin> set (fj_workers (fj_run evs (fj_init n root))) \<and>
   (\<forall>i e. i < length (fj_workers (fj_run evs (fj_init n root))) \<and>
      fj_workers (fj_run evs (fj_init n root)) ! i = InJob [] (Some e) \<longrightarrow>
      fj_workers (fj_run [Worker i] (fj_run evs (fj_init n root))) ! i = FetchSub \<and>
      (fj_workers (fj_run [Worker i, Worker i] (fj_run evs (fj_init n root))) ! i = LoopHead \<or>
       fj_workers (fj_run [Worker i, Worker i, Worker i] (fj_run evs (fj_init n root))) ! i
         = LoopHead))"
proof -
  define c where "c = fj_run evs (fj_init n root)"
  have inv: "fj_inv c" unfolding c_def by (rule fj_reachable_inv)
  have nc: "Crashed \<notin> set (fj_workers c)"
    using inv_fireD(1) [OF fj_invD(2) [OF inv]] .
  have "fj_workers (fj_run [Worker i] c) ! i = FetchSub \<and>
      (fj_workers (fj_run [Worker i, Worker i] c) ! i = LoopHead \<or>
       fj_workers (fj_run [Worker i, Worker i, Worker i] c) ! i = LoopHead)"
    if i: "i < length (fj_workers c)" and f: "fj_workers c ! i = InJob [] (Some e)" for i e
  proof -
    define c1 where "c1 = fj_step (Worker i) c"
    define c2 where "c2 = fj_step (Worker i) c1"
    have inv1: "fj_inv c1" unfolding c1_def using inv by (rule fj_step_inv)
    have inv2: "fj_inv c2" unfolding c2_def using inv1 by (rule fj_step_inv)
    have p1: "fj_workers c1 ! i = FetchSub" unfolding c1_def by (rule catch_step(1) [OF nc i f])
    have l1: "i < length (fj_workers c1)" unfolding c1_def using i by simp
    have l2: "i < length (fj_workers c2)" unfolding c2_def using l1 by simp
    have nc1: "Crashed \<notin> set (fj_workers c1)"
      using inv_fireD(1) [OF fj_invD(2) [OF inv1]] .
    have p2: "fj_workers c2 ! i = (if counter (fj_state c1) = 1 then Finalize else LoopHead)"
      unfolding c2_def by (rule fetch_sub_step [OF nc1 l1 p1])
    have "fj_workers c2 ! i = LoopHead \<or> fj_workers (fj_step (Worker i) c2) ! i = LoopHead"
      using p2 finalize_step [OF inv2 l2] by (cases "counter (fj_state c1) = 1") simp_all
    with p1 show ?thesis by (simp add: c1_def c2_def)
  qed
  with nc show ?thesis unfolding c_def by blast
qed

theorem wrapper_contains_errors_witness:
  "0 < length (fj_workers
         (fj_run [Main, Main, Main, Worker 0, Worker 0, Worker 0, Worker 0,
            Worker 0, Worker 0, Worker 0, Worker 0, Worker 0, Worker 0]
            (fj_init 1 (Job [Job [] (Some (1::nat)), Job [] (Some 2)] None)))) \<and>
   fj_workers
     (fj_run [Main, Main, Main, Worker 0, Worker 0, Worker 0, Worker 0,
            Worker 0, Worker 0, Worker 0, Worker 0, Worker 0, Worker 0]
        (fj_init 1 (Job [Job [] (Some (1::nat)), Job [] (Some 2)] None))) ! 0
     = InJob [] (Some 2) \<and>
   fj_workers
     (fj_run [Worker 0]
        (fj_run [Main, Main, Main, Worker 0, Worker 0, Worker 0, Worker 0,
            Worker 0, Worker 0, Worker 0, Worker 0, Worker 0, Worker 0]
           (fj_init 1 (Job [Job [] (Some (1::nat)), Job [] (Some 2)] None)))) ! 0
     = FetchSub \<and>
   fj_workers
     (fj_run [Worker 0, Worker 0]
        (fj_run [Main, Main, Main, Worker 0, Worker 0, Worker 0, Worker 0,
            Worker 0, Worker 0, Worker 0, Worker 0, Worker 0, Worker 0]
           (fj_init 1 (Job [Job [] (Some (1::nat)), Job [] (Some 2)] None)))) ! 0
     = LoopHead"
proof -
  let ?c = "fj_run [Main, Main, Main, Worker 0, Worker 0, Worker 0, Worker 0,
            Worker 0, Worker 0, Worker 0, Worker 0, Worker 0, Worker 0]
              (fj_init 1 (Job [Job [] (Some (1::nat)), Job [] (Some 2)] None))"
  have at: "0 < length (fj_workers ?c)" "fj_workers ?c ! 0 = InJob [] (Some 2)"
    by (simp_all only: example_run_catch) simp_all
  have two: "fj_workers (fj_run [Worker 0, Worker 0] ?c) ! 0 = LoopHead"
    by (simp only: example_run_catch) (simp add: fj_eval)
  from wrapper_contains_errors
    [where evs = "[Main, Main, Main, Worker 0, Worker 0, Worker 0, Worker 0,
            Worker 0, Worker 0, Worker 0, Worker 0, Worker 0, Worker 0]" and n = 1
      and root = "Job [Job [] (Some (1::nat)), Job [] (Some 2)] None"] at
  have "fj_workers (fj_run [Worker 0] ?c) ! 0 = FetchSub" by blast
  with at two show ?thesis by blast
qed

text \<open>
  Claim C2. For every task tree, every number of workers and every schedule, in the
  configuration reached: the promise is still pending unless the counter is 0; once it is set,
  every error of the tree has been caught, \<^verbatim>\<open>get()\<close> returns normally if no body of the tree
  throws, and otherwise rethrows the error that was caught first; the errors caught are
  always among those of the tree; the slot holds the first of them, and once it is set no step
  changes it; a finished run has set the promise, and every run can be continued to a
  finished one.
\<close>

theorem first_error_wins:
  "(prom (fj_state (fj_run evs (fj_init n root))) = Pending \<or>
      counter (fj_state (fj_run evs (fj_init n root))) = 0) \<and>
   (prom (fj_state (fj_run evs (fj_init n root))) \<noteq> Pending \<longrightarrow>
      mset (caught (fj_run evs (fj_init n root))) = errs root) \<and>
   (prom (fj_state (fj_run evs (fj_init n root))) \<noteq> Pending \<and> errs root = {#} \<longrightarrow>
      future_get (prom (fj_state (fj_run evs (fj_init n root)))) = Some (Inr ())) \<and>
   (prom (fj_state (fj_run evs (fj_init n root))) \<noteq> Pending \<and> errs root \<noteq> {#} \<longrightarrow>
      (\<exists>e es. caught (fj_run evs (fj_init n root)) = e # es \<and>
         future_get (prom (fj_state (fj_run evs (fj_init n root)))) = Some (Inl e))) \<and>
   mset (caught (fj_run evs (fj_init n root))) \<subseteq># errs root \<and>
   except_ptr (fj_state (fj_run evs (fj_init n root)))
     = (case caught (fj_run evs (fj_init n root)) of [] \<Rightarrow> None | e # es \<Rightarrow> Some e) \<and>
   (except_set (fj_state (fj_run evs (fj_init n root))) \<longrightarrow>
      except_set (fj_state (fj_step ev (fj_run evs (fj_init n root)))) \<and>
      except_ptr (fj_state (fj_step ev (fj_run evs (fj_init n root))))
        = except_ptr (fj_state (fj_run evs (fj_init n root)))) \<and>
   (finished (fj_run evs (fj_init n root)) \<longrightarrow>
      prom (fj_state (fj_run evs (fj_init n root))) \<noteq> Pending) \<and>
   (\<exists>evs'. finished (fj_run (evs @ evs') (fj_init n root)))"
proof -
  define c where "c = fj_run evs (fj_init n root)"
  have inv: "fj_inv c" unfolding c_def by (rule fj_reachable_inv)
  have root: "fj_root c = root"
    unfolding c_def by (simp add: fj_init_def)
  from fj_invD(3) [OF inv] have sl: "slot_ok c" and acc: "mset (caught c) + errs_left c = errs root"
    unfolding inv_err_def root by blast+
  have a: "prom (fj_state c) = Pending \<or> counter (fj_state c) = 0"
    using set_implies_quiet [OF inv] by blast
  have b1: "prom (fj_state c) \<noteq> Pending \<longrightarrow> mset (caught c) = errs root"
    using set_implies_quiet [OF inv] root by auto
  have b2: "prom (fj_state c) \<noteq> Pending \<and> errs root = {#} \<longrightarrow>
      future_get (prom (fj_state c)) = Some (Inr ())"
    using result_cases(1) [OF sl, of "errs root"] b1 by blast
  have b3: "prom (fj_state c) \<noteq> Pending \<and> errs root \<noteq> {#} \<longrightarrow>
      (\<exists>e es. caught c = e # es \<and> future_get (prom (fj_state c)) = Some (Inl e))"
    using result_cases(2) [OF sl, of "errs root"] b1 by blast
  have d: "finished c \<longrightarrow> prom (fj_state c) \<noteq> Pending"
    using finished_fired [OF inv] inv_fireD(5) [OF fj_invD(2) [OF inv]] by auto
  have e: "mset (caught c) \<subseteq># errs root"
    using acc by (metis mset_subset_eq_add_left)
  have s: "except_ptr (fj_state c) = (case caught c of [] \<Rightarrow> None | e # es \<Rightarrow> Some e)"
    using sl unfolding slot_ok_def by blast
  have f: "except_set (fj_state c) \<longrightarrow>
      except_set (fj_state (fj_step ev c)) \<and>
      except_ptr (fj_state (fj_step ev c)) = except_ptr (fj_state c)"
    using slot_write_once [of c ev] by blast
  have ex: "\<exists>evs'. finished (fj_run (evs @ evs') (fj_init n root))"
    by (rule can_finish_from)
  show ?thesis
    unfolding c_def [symmetric] by (rule conjI a b1 b2 b3 e s f d ex)+
qed

theorem first_error_wins_witness:
  "future_get (prom (fj_state
     (fj_run [Main, Main, Main, Worker 0, Worker 0, Worker 0, Worker 0,
            Worker 0, Worker 0, Worker 0, Worker 0, Worker 0, Worker 0, Worker 0,
            Worker 0, Worker 0, Worker 0, Worker 0, Worker 0]
        (fj_init 1 (Job [Job [] (Some (1::nat)), Job [] (Some 2)] None)))))
     = Some (Inl 2) \<and>
   caught
     (fj_run [Main, Main, Main, Worker 0, Worker 0, Worker 0, Worker 0,
            Worker 0, Worker 0, Worker 0, Worker 0, Worker 0, Worker 0, Worker 0,
            Worker 0, Worker 0, Worker 0, Worker 0, Worker 0]
        (fj_init 1 (Job [Job [] (Some (1::nat)), Job [] (Some 2)] None)))
     = [2, 1] \<and>
   errs (Job [Job [] (Some (1::nat)), Job [] (Some 2)] None) = {#1, 2#} \<and>
   future_get (prom (fj_state
     (fj_run [Main, Main, Main, Worker 0, Worker 0, Worker 0, Worker 0]
        (fj_init 1 (Job [] (None :: nat option))))))
     = Some (Inr ()) \<and>
   errs (Job [] (None :: nat option)) = {#} \<and>
   fj_workers
     (fj_run [Main, Main, Main, Worker 0, Worker 0, Worker 0, Worker 0,
            Worker 0, Worker 0, Worker 0, Worker 0, Worker 0, Worker 0, Worker 0,
            Worker 0, Worker 0]
        (fj_init 1 (Job [Job [] (Some (1::nat)), Job [] (Some 2)] None))) ! 0
     = InJob [] (Some 1) \<and>
   except_ptr (fj_state (fj_step (Worker 0)
     (fj_run [Main, Main, Main, Worker 0, Worker 0, Worker 0, Worker 0,
            Worker 0, Worker 0, Worker 0, Worker 0, Worker 0, Worker 0, Worker 0,
            Worker 0, Worker 0]
        (fj_init 1 (Job [Job [] (Some (1::nat)), Job [] (Some 2)] None)))))
     = Some 2"
proof -
  let ?root = "Job [Job [] (Some (1::nat)), Job [] (Some 2)] None"
  let ?clean = "Job [] (None :: nat option)"
  let ?c = "fj_run [Main, Main, Main, Worker 0, Worker 0, Worker 0, Worker 0,
            Worker 0, Worker 0, Worker 0, Worker 0, Worker 0, Worker 0, Worker 0,
            Worker 0, Worker 0, Worker 0, Worker 0, Worker 0]
             (fj_init 1 ?root)"
  let ?s = "fj_run [Main, Main, Main, Worker 0, Worker 0, Worker 0, Worker 0,
            Worker 0, Worker 0, Worker 0, Worker 0, Worker 0, Worker 0, Worker 0,
            Worker 0, Worker 0]
             (fj_init 1 ?root)"
  let ?k = "fj_run [Main, Main, Main, Worker 0, Worker 0, Worker 0, Worker 0] (fj_init 1 ?clean)"
  have fin: "finished ?c" by (simp only: example_at_end) (simp add: finished_def)
  have cg: "caught ?c = [2, 1]" by (simp only: example_at_end) simp
  have er: "errs ?root = {#1, 2#}" "errs ?clean = {#}" by simp_all
  have fk: "finished ?k" by (simp only: example_run_clean) (simp add: finished_def)
  have at: "fj_workers ?s ! 0 = InJob [] (Some 1)" "except_set (fj_state ?s)"
    "except_ptr (fj_state ?s) = Some 2"
    by (simp_all only: example_at_second) simp_all
  note t = first_error_wins
    [where evs = "[Main, Main, Main, Worker 0, Worker 0, Worker 0, Worker 0,
            Worker 0, Worker 0, Worker 0, Worker 0, Worker 0, Worker 0, Worker 0,
            Worker 0, Worker 0, Worker 0, Worker 0, Worker 0]"
      and n = 1 and root = ?root]
  note u = first_error_wins
    [where evs = "[Main, Main, Main, Worker 0, Worker 0, Worker 0, Worker 0]"
      and n = 1 and root = ?clean]
  note v = first_error_wins
    [where evs = "[Main, Main, Main, Worker 0, Worker 0, Worker 0, Worker 0,
            Worker 0, Worker 0, Worker 0, Worker 0, Worker 0, Worker 0, Worker 0,
            Worker 0, Worker 0]"
      and n = 1 and root = ?root and ev = "Worker 0"]
  from t fin have p: "prom (fj_state ?c) \<noteq> Pending" by blast
  have ne: "errs ?root \<noteq> {#}" unfolding er by simp
  from t p ne have "\<exists>e es. caught ?c = e # es \<and> future_get (prom (fj_state ?c)) = Some (Inl e)"
    by blast
  then have r1: "future_get (prom (fj_state ?c)) = Some (Inl 2)" unfolding cg by simp
  from u fk have "prom (fj_state ?k) \<noteq> Pending" by blast
  with u er(2) have r2: "future_get (prom (fj_state ?k)) = Some (Inr ())" by blast
  from v at(2) have "except_ptr (fj_state (fj_step (Worker 0) ?s)) = except_ptr (fj_state ?s)"
    by blast
  then have r3: "except_ptr (fj_state (fj_step (Worker 0) ?s)) = Some 2" unfolding at(3) .
  from r1 cg er r2 at(1) r3 show ?thesis by blast
qed

end
